theory Spec2Isabelle
  imports Main "HOL-Library.Word"
begin

section \<open>C strings\<close>

text \<open>
  A value of type \<open>string\<close> stands for the characters a \<open>const char *\<close> points at; the
  terminating NUL is implicit at the end of the list, and a NUL inside the list ends the
  C string early, as it does for the C code. \<open>deref\<close> is \<open>*s\<close>, \<open>c_str\<close> is the part of the
  characters that C functions and the \<open>std::string\<close> constructor see.
\<close>

definition NUL :: char where
  "NUL = CHR 0x00"

fun deref :: "string \<Rightarrow> char" where
  "deref [] = NUL"
| "deref (c # cs) = c"

definition c_str :: "string \<Rightarrow> string" where
  "c_str s = takeWhile (\<lambda>c. c \<noteq> NUL) s"

text \<open>\<open>(*s >= 'A' && *s <= 'Z') ? *s + 32 : *s\<close>\<close>

definition to_lower :: "char \<Rightarrow> char" where
  "to_lower c =
     (if (65::nat) \<le> of_char c \<and> (of_char c :: nat) \<le> 90
      then char_of ((of_char c :: nat) + 32) else c)"

definition char_diff :: "char \<Rightarrow> char \<Rightarrow> int" where
  "char_diff a b = int (of_char a) - int (of_char b)"

function strcasecmp_custom :: "string \<Rightarrow> string \<Rightarrow> int" where
  "strcasecmp_custom s1 s2 =
     (if deref s1 \<noteq> NUL \<and> deref s2 \<noteq> NUL then
        (let c1 = to_lower (deref s1); c2 = to_lower (deref s2)
         in if c1 \<noteq> c2 then char_diff c1 c2
            else strcasecmp_custom (tl s1) (tl s2))
      else char_diff (deref s1) (deref s2))"
  by pat_completeness auto
termination
proof (relation "measure (\<lambda>(s1, s2). length s1)")
  show "wf (measure (\<lambda>(s1, s2). length s1))" by simp
next
  fix s1 s2 :: string and x xa
  assume "deref s1 \<noteq> NUL \<and> deref s2 \<noteq> NUL"
  then have "s1 \<noteq> []" by (cases s1) auto
  then show "((tl s1, tl s2), (s1, s2)) \<in> measure (\<lambda>(s1, s2). length s1)"
    by (cases s1) auto
qed

declare strcasecmp_custom.simps [simp del]

text \<open>
  \<open>strrchr\<close> of the C library: the suffix of the string that starts at the last occurrence
  of the character, or no pointer when the character does not occur before the NUL.
\<close>

fun strrchr :: "string \<Rightarrow> char \<Rightarrow> string option" where
  "strrchr [] c = None"
| "strrchr (x # xs) c =
     (if x = NUL then None
      else (case strrchr xs c of
              Some r \<Rightarrow> Some r
            | None \<Rightarrow> if x = c then Some (x # xs) else None))"

definition zip_is_archive :: "string option \<Rightarrow> int" where
  "zip_is_archive fname =
     (case fname of
        None \<Rightarrow> 0
      | Some f \<Rightarrow>
          (case strrchr f (CHR ''.'') of
             None \<Rightarrow> 0
           | Some ext \<Rightarrow> if strcasecmp_custom ext ''.zip'' = 0 then 1 else 0))"


section \<open>Data model\<close>

type_synonym byte = "8 word"

text \<open>\<open>unsigned long\<close> and \<open>long\<close> have 32 bits on the PS Vita (ARM, ILP32).\<close>

type_synonym uLong = "32 word"

definition INT_MAX :: int where
  "INT_MAX = 2147483647"

definition MAX_FILENAME_LENGTH :: nat where
  "MAX_FILENAME_LENGTH = 512"

definition TEMP_DIR :: string where
  "TEMP_DIR = ''ux0:temp/vicevita_zip/''"

record ZipEntry =
  filename :: string
  uncompressed_size :: uLong
  compressed_size :: uLong
  is_directory :: bool
  path :: string

text \<open>
  Modelled from the spec: the codec (minizip, \<open>unzip.h\<close>) is not among the sources. The spec
  treats it as an opaque capability with open, first/next cursor, locate, metadata and
  read-current-entry primitives. A session is the container's directory in physical order;
  every raw entry says what each primitive answers at that entry: the name it stores, the
  metadata (\<open>None\<close> when \<open>unzGetCurrentFileInfo\<close> does not answer \<open>UNZ_OK\<close>), whether
  \<open>unzOpenCurrentFile\<close> answers \<open>UNZ_OK\<close>, and the decompressed bytes that
  \<open>unzReadCurrentFile\<close> can deliver (\<open>None\<close> when it answers a negative error code).
  The declared size in the metadata and the length of the payload are independent.
  The cursor is set afresh by \<open>unzGoToFirstFile\<close> or \<open>unzLocateFile\<close> at the start of
  each function that uses it, so it is a local value of these functions.
\<close>

record unz_file_info =
  info_uncompressed_size :: uLong
  info_compressed_size :: uLong

record raw_entry =
  stored_name :: string
  file_info :: "unz_file_info option"
  opens :: bool
  payload :: "byte list option"

type_synonym unzFile = "raw_entry list"

record ZipArchiveHandle =
  handle :: "unzFile option"
  archive_path :: string
  is_open :: bool
  entries :: "ZipEntry list"

text \<open>
  A \<open>std::vector\<close> keeps its elements in one contiguous buffer. \<open>storage\<close> is the part of the
  buffer that has held elements, \<open>vsize\<close> the number of live elements at its front.
  \<open>erase\<close> moves the tail one slot down and lowers the size; the slot that held the last
  element keeps its value. Iterators are positions in the buffer.
\<close>

record 'a vector =
  storage :: "'a list"
  vsize :: nat

definition elements :: "'a vector \<Rightarrow> 'a list" where
  "elements v = take (vsize v) (storage v)"

definition push_back :: "'a vector \<Rightarrow> 'a \<Rightarrow> 'a vector" where
  "push_back v x =
     (if vsize v < length (storage v)
      then \<lparr>storage = (storage v)[vsize v := x], vsize = Suc (vsize v)\<rparr>
      else \<lparr>storage = take (vsize v) (storage v) @ [x], vsize = Suc (vsize v)\<rparr>)"

fun index_of :: "('a \<Rightarrow> bool) \<Rightarrow> 'a list \<Rightarrow> nat option" where
  "index_of P [] = None"
| "index_of P (x # xs) =
     (if P x then Some 0 else map_option Suc (index_of P xs))"

definition std_find :: "'a vector \<Rightarrow> 'a \<Rightarrow> nat option" where
  "std_find v x = index_of (\<lambda>y. y = x) (elements v)"

definition erase :: "'a vector \<Rightarrow> nat \<Rightarrow> 'a vector" where
  "erase v i =
     \<lparr>storage = take i (storage v)
                 @ take (vsize v - Suc i) (drop (Suc i) (storage v))
                 @ drop (vsize v - 1) (storage v),
      vsize = vsize v - 1\<rparr>"

definition clear :: "'a vector \<Rightarrow> 'a vector" where
  "clear v = v\<lparr>vsize := 0\<rparr>"

text \<open>
  A \<open>ZipArchiveHandle *\<close> is \<open>None\<close> (the null pointer) or an address; the heap maps the
  addresses of the live handle objects to their contents. \<open>char *\<close> buffers made by
  \<open>new char[n]\<close> are lists of \<open>n\<close> cells, a cell being \<open>None\<close> until it is written.
\<close>

type_synonym handle_ptr = "nat option"
type_synonym buffer = "byte option list"
type_synonym char_ptr = "buffer option"

text \<open>
  The process state: the heap of handles, the static registry \<open>g_open_archives\<close>, the
  function-static \<open>temp_counter\<close>, and the host file system. The addresses that
  \<open>new ZipArchiveHandle()\<close> answers are taken in order and not used again. The host's
  directory-creation and raw file I/O primitives and the containers that \<open>unzOpen\<close> can
  open are not among the sources; what they answer is a parameter of the state:
  \<open>unzOpen_env\<close> gives the session for a path, \<open>sceIoOpen_env\<close> says whether a path can
  be opened for writing, \<open>sceIoWrite_env\<close> gives the count that a write of so many bytes
  to a descriptor answers.
\<close>

record world =
  heap :: "nat \<Rightarrow> ZipArchiveHandle option"
  next_addr :: nat
  g_open_archives :: "handle_ptr vector"
  temp_counter :: int
  unzOpen_env :: "string \<Rightarrow> unzFile option"
  dirs :: "string list"
  files :: "string \<Rightarrow> byte list option"
  sceIoOpen_env :: "string \<Rightarrow> bool"
  sceIoWrite_env :: "string \<Rightarrow> nat \<Rightarrow> int"

text \<open>What the C++ code can do besides returning.\<close>

datatype fault =
    Use_after_free
  | Out_of_bounds_read
  | Bad_array_new_length
  | Signed_overflow
  | Null_pointer_access
  | Uninitialised_read

section \<open>Codec and host primitives\<close>

text \<open>
  Modelled from the spec: the primitives of the codec (\<open>unzOpen\<close>, \<open>unzGoToFirstFile\<close>,
  \<open>unzGoToNextFile\<close>, \<open>unzGetCurrentFileInfo\<close>, \<open>unzLocateFile\<close>, \<open>unzOpenCurrentFile\<close>,
  \<open>unzReadCurrentFile\<close>) and of the host file system (\<open>sceIoMkdir\<close>, \<open>sceIoOpen\<close>,
  \<open>sceIoWrite\<close>), whose code is not among the sources. The cursor is a position in the
  directory; positioning at the first entry fails on an empty directory, advancing fails
  at the last entry; lookup is by exact name and answers the first entry of that name;
  a read delivers at most the requested number of bytes into the front of the buffer and
  answers how many. \<open>unzClose\<close>, \<open>unzCloseCurrentFile\<close> and \<open>sceIoClose\<close> change nothing
  that is modelled.
\<close>

definition unzOpen :: "world \<Rightarrow> string \<Rightarrow> unzFile option" where
  "unzOpen w p = unzOpen_env w (c_str p)"

definition unzGoToFirstFile :: "unzFile \<Rightarrow> nat option" where
  "unzGoToFirstFile uf = (if uf = [] then None else Some 0)"

definition unzGoToNextFile :: "unzFile \<Rightarrow> nat \<Rightarrow> nat option" where
  "unzGoToNextFile uf cur = (if Suc cur < length uf then Some (Suc cur) else None)"

definition unzGetCurrentFileInfo :: "unzFile \<Rightarrow> nat \<Rightarrow> (string \<times> unz_file_info) option" where
  "unzGetCurrentFileInfo uf cur =
     (if cur < length uf
      then map_option (\<lambda>fi. (stored_name (uf ! cur), fi)) (file_info (uf ! cur))
      else None)"

definition unzLocateFile :: "unzFile \<Rightarrow> string \<Rightarrow> nat option" where
  "unzLocateFile uf fname = index_of (\<lambda>r. c_str (stored_name r) = c_str fname) uf"

definition unzOpenCurrentFile :: "unzFile \<Rightarrow> nat \<Rightarrow> bool" where
  "unzOpenCurrentFile uf cur = (cur < length uf \<and> opens (uf ! cur))"

definition unzReadCurrentFile :: "unzFile \<Rightarrow> nat \<Rightarrow> buffer \<Rightarrow> nat \<Rightarrow> int \<times> buffer" where
  "unzReadCurrentFile uf cur buf len =
     (if cur < length uf then
        (case payload (uf ! cur) of
           None \<Rightarrow> (- 1, buf)
         | Some bs \<Rightarrow>
             (let k = min len (length bs)
              in (int k, map Some (take k bs) @ drop k buf)))
      else (- 1, buf))"

definition sceIoMkdir :: "world \<Rightarrow> string \<Rightarrow> world" where
  "sceIoMkdir w d = (if c_str d \<in> set (dirs w) then w else w\<lparr>dirs := dirs w @ [c_str d]\<rparr>)"

text \<open>
  \<open>sceIoOpen\<close> with \<open>SCE_O_WRONLY | SCE_O_CREAT | SCE_O_TRUNC\<close>: a descriptor (here the
  path itself) and an empty file, or a negative value (\<open>None\<close>) and no change.
\<close>

definition sceIoOpen :: "world \<Rightarrow> string \<Rightarrow> string option \<times> world" where
  "sceIoOpen w p =
     (if sceIoOpen_env w (c_str p)
      then (Some (c_str p), w\<lparr>files := (files w)(c_str p := Some [])\<rparr>)
      else (None, w))"

definition sceIoWrite :: "world \<Rightarrow> string \<Rightarrow> buffer \<Rightarrow> nat \<Rightarrow> fault + (int \<times> world)" where
  "sceIoWrite w fd buf n =
     (let r = sceIoWrite_env w fd n; k = min (nat r) n
      in case those (take k buf) of
           None \<Rightarrow> Inl Uninitialised_read
         | Some bs \<Rightarrow> Inr (r, w\<lparr>files := (files w)(fd := Some bs)\<rparr>))"

text \<open>\<open>std::to_string(int)\<close>: the decimal digits, with a minus sign for a negative value.\<close>

definition digit_char :: "nat \<Rightarrow> char" where
  "digit_char d = char_of (48 + d)"

function digits :: "nat \<Rightarrow> string" where
  "digits n = (if n < 10 then [digit_char n] else digits (n div 10) @ [digit_char (n mod 10)])"
  by pat_completeness auto
termination
  by (relation "measure (\<lambda>n. n)") auto

declare digits.simps [simp del]

definition to_string :: "int \<Rightarrow> string" where
  "to_string i = (if i < 0 then CHR ''-'' # digits (nat (- i)) else digits (nat i))"


section \<open>Entry catalog\<close>

text \<open>
  The body of the loop of \<open>zip_list_contents_internal\<close> after the metadata was read:
  \<open>entry.filename = filename\<close> builds a \<open>std::string\<close> from the array
  \<open>char filename[MAX_FILENAME_LENGTH]\<close>, and \<open>filename[strlen(filename) - 1]\<close> reads the
  array at an index computed in \<open>size_t\<close> (32 bits, wrapping). The \<open>std::string\<close>
  constructor and \<open>strlen\<close> read the array up to the terminating NUL, so a name that the
  array cannot hold together with its NUL is read past the end of the array.
\<close>

definition dir_flag_index :: "string \<Rightarrow> nat" where
  "dir_flag_index fname = unat ((word_of_nat (length (c_str fname)) :: 32 word) - 1)"

definition make_entry :: "string \<Rightarrow> unz_file_info \<Rightarrow> fault + ZipEntry" where
  "make_entry fname fi =
     (if length (c_str fname) < MAX_FILENAME_LENGTH
         \<and> dir_flag_index fname < MAX_FILENAME_LENGTH then
        Inr \<lparr>filename = c_str fname,
             uncompressed_size = info_uncompressed_size fi,
             compressed_size = info_compressed_size fi,
             is_directory = (deref (drop (dir_flag_index fname) fname) = CHR ''/''),
             path = c_str fname\<rparr>
      else Inl Out_of_bounds_read)"

text \<open>
  The \<open>do \<dots> while (unzGoToNextFile(uf) == UNZ_OK)\<close> loop. \<open>continue\<close> in a do-while
  loop jumps to the loop condition, so the cursor is advanced after a failed metadata
  read as well.
\<close>

function list_loop :: "unzFile \<Rightarrow> nat \<Rightarrow> ZipEntry list \<Rightarrow> fault + ZipEntry list" where
  "list_loop uf cur es =
     (case unzGetCurrentFileInfo uf cur of
        None \<Rightarrow>
          (case unzGoToNextFile uf cur of
             None \<Rightarrow> Inr es
           | Some nxt \<Rightarrow> list_loop uf nxt es)
      | Some (fname, fi) \<Rightarrow>
          (case make_entry fname fi of
             Inl f \<Rightarrow> Inl f
           | Inr entry \<Rightarrow>
               (case unzGoToNextFile uf cur of
                  None \<Rightarrow> Inr (es @ [entry])
                | Some nxt \<Rightarrow> list_loop uf nxt (es @ [entry]))))"
  by pat_completeness auto
termination
  by (relation "measure (\<lambda>(uf, cur, es). length uf - cur)")
    (auto simp: unzGoToNextFile_def split: if_splits)

declare list_loop.simps [simp del]

definition zip_list_contents_internal ::
  "ZipArchiveHandle option \<Rightarrow> ZipEntry list \<Rightarrow> fault + (bool \<times> ZipEntry list)" where
  "zip_list_contents_internal archive es =
     (case archive of
        None \<Rightarrow> Inr (False, es)
      | Some h \<Rightarrow>
          if \<not> is_open h then Inr (False, es)
          else (case handle h of
                  None \<Rightarrow> Inr (False, [])
                | Some uf \<Rightarrow>
                    (case unzGoToFirstFile uf of
                       None \<Rightarrow> Inr (False, [])
                     | Some cur \<Rightarrow>
                         (case list_loop uf cur [] of
                            Inl f \<Rightarrow> Inl f
                          | Inr es' \<Rightarrow> Inr (True, es')))))"

section \<open>Archive handle: open and close\<close>

definition zip_open_archive :: "world \<Rightarrow> string option \<Rightarrow> fault + (handle_ptr \<times> world)" where
  "zip_open_archive w archive_path_arg =
     (case archive_path_arg of
        None \<Rightarrow> Inr (None, w)
      | Some p \<Rightarrow>
          if zip_is_archive (Some p) = 0 then Inr (None, w)
          else (case unzOpen w p of
                  None \<Rightarrow> Inr (None, w)
                | Some uf \<Rightarrow>
                    (let a = next_addr w;
                         archive = \<lparr>handle = Some uf, archive_path = c_str p,
                                    is_open = True, entries = []\<rparr>
                     in case zip_list_contents_internal (Some archive) (entries archive) of
                          Inl f \<Rightarrow> Inl f
                        | Inr (listed, es) \<Rightarrow>
                            Inr (Some a,
                                 w\<lparr>heap := (heap w)(a := Some (archive\<lparr>entries := es\<rparr>)),
                                   next_addr := Suc a,
                                   g_open_archives := push_back (g_open_archives w) (Some a)\<rparr>))))"

text \<open>
  \<open>zip_close_archive\<close>: the codec session is released and the state set to closed, the
  pointer is erased from the registry, and the object is deleted, so its address leaves
  the heap. Reading \<open>archive->is_open\<close> through a pointer to a deleted object is a fault.
\<close>

definition zip_close_archive :: "world \<Rightarrow> handle_ptr \<Rightarrow> fault + world" where
  "zip_close_archive w archive =
     (case archive of
        None \<Rightarrow> Inr w
      | Some a \<Rightarrow>
          (case heap w a of
             None \<Rightarrow> Inl Use_after_free
           | Some h \<Rightarrow>
               if \<not> is_open h then Inr w
               else (let w1 = w\<lparr>heap := (heap w)
                                  (a := Some (h\<lparr>handle := None, is_open := False\<rparr>))\<rparr>;
                         v = g_open_archives w1;
                         w2 = (case std_find v (Some a) of
                                 None \<Rightarrow> w1
                               | Some it \<Rightarrow> w1\<lparr>g_open_archives := erase v it\<rparr>)
                     in Inr (w2\<lparr>heap := (heap w2)(a := None)\<rparr>))))"

section \<open>Extractor\<close>

text \<open>
  The out-parameters \<open>char **data\<close> and \<open>long *size\<close> are \<open>None\<close> when the pointer is null
  and otherwise hold the value of the caller's cell; the function returns the cells as
  they are after the call. \<open>new char[*size]\<close> throws when \<open>*size\<close> is negative.
\<close>

definition zip_extract_file_internal ::
  "world \<Rightarrow> handle_ptr \<Rightarrow> string option \<Rightarrow> char_ptr option \<Rightarrow> int option
     \<Rightarrow> fault + (bool \<times> char_ptr option \<times> int option)" where
  "zip_extract_file_internal w archive fname data sizep =
     (case archive of
        None \<Rightarrow> Inr (False, data, sizep)
      | Some a \<Rightarrow>
          (case heap w a of
             None \<Rightarrow> Inl Use_after_free
           | Some h \<Rightarrow>
               if \<not> is_open h \<or> fname = None \<or> data = None \<or> sizep = None
               then Inr (False, data, sizep)
               else
                 (case (handle h, fname) of
                    (Some uf, Some f) \<Rightarrow>
                      (case unzLocateFile uf f of
                         None \<Rightarrow> Inr (False, Some None, Some 0)
                       | Some cur \<Rightarrow>
                           (case unzGetCurrentFileInfo uf cur of
                              None \<Rightarrow> Inr (False, Some None, Some 0)
                            | Some (stored, fi) \<Rightarrow>
                                if \<not> unzOpenCurrentFile uf cur then Inr (False, Some None, Some 0)
                                else
                                  (let sz = sint (info_uncompressed_size fi)
                                   in if sz < 0 then Inl Bad_array_new_length
                                      else
                                        (let (bytes_read, buf) =
                                               unzReadCurrentFile uf cur (replicate (nat sz) None) (nat sz)
                                         in if bytes_read \<noteq> sz then Inr (False, Some None, Some 0)
                                            else Inr (True, Some (Some buf), Some sz)))))
                  | _ \<Rightarrow> Inr (False, Some None, Some 0))))"

definition zip_extract_file ::
  "world \<Rightarrow> handle_ptr \<Rightarrow> string option \<Rightarrow> char_ptr option \<Rightarrow> int option
     \<Rightarrow> fault + (int \<times> char_ptr option \<times> int option)" where
  "zip_extract_file w archive fname data sizep =
     (case zip_extract_file_internal w archive fname data sizep of
        Inl f \<Rightarrow> Inl f
      | Inr (result, data', size') \<Rightarrow> Inr (if result then 1 else 0, data', size'))"


section \<open>Scratch-file writer\<close>

definition zip_get_temp_dir :: string where
  "zip_get_temp_dir = TEMP_DIR"

text \<open>
  \<open>temp_path\<close> is the caller's \<open>std::string &\<close>: the argument is its value before the
  call, the second component of the result its value after. \<open>temp_counter++\<close> on an \<open>int\<close>
  that holds \<open>INT_MAX\<close> is a signed overflow.
\<close>

definition zip_extract_file_to_temp_internal ::
  "world \<Rightarrow> handle_ptr \<Rightarrow> string option \<Rightarrow> string \<Rightarrow> fault + (bool \<times> string \<times> world)" where
  "zip_extract_file_to_temp_internal w archive fname temp_path =
     (case zip_extract_file_internal w archive fname (Some None) (Some 0) of
        Inl f \<Rightarrow> Inl f
      | Inr (extracted, data_cell, size_cell) \<Rightarrow>
          if \<not> extracted then Inr (False, temp_path, w)
          else
            (case (data_cell, size_cell, fname) of
               (Some (Some data), Some sz, Some f) \<Rightarrow>
                 (let temp_dir = zip_get_temp_dir;
                      w1 = sceIoMkdir w temp_dir
                  in if temp_counter w1 = INT_MAX then Inl Signed_overflow
                     else
                       (let w2 = w1\<lparr>temp_counter := temp_counter w1 + 1\<rparr>;
                            base_filename =
                              (case strrchr f (CHR ''/'') of
                                 Some r \<Rightarrow> tl r
                               | None \<Rightarrow> f);
                            temp_path' = temp_dir @ ''temp_'' @ to_string (temp_counter w2)
                                           @ ''_'' @ c_str base_filename
                        in case sceIoOpen w2 temp_path' of
                             (None, w3) \<Rightarrow> Inr (False, temp_path', w3)
                           | (Some fd, w3) \<Rightarrow>
                               (case sceIoWrite w3 fd data (nat sz) of
                                  Inl f \<Rightarrow> Inl f
                                | Inr (bytes_written, w4) \<Rightarrow>
                                    Inr (bytes_written = sz, temp_path', w4))))
             | _ \<Rightarrow> Inl Null_pointer_access))"

section \<open>ROM locator\<close>

text \<open>The loop over a null-terminated array of extensions.\<close>

fun match_extension :: "string \<Rightarrow> string list \<Rightarrow> bool" where
  "match_extension ext [] = False"
| "match_extension ext (x # xs) =
     (if strcasecmp_custom ext x = 0 then True else match_extension ext xs)"

definition supported_exts :: "string list" where
  "supported_exts =
     [''.prg'', ''.p00'', ''.t64'', ''.tap'', ''.d64'', ''.d71'', ''.d81'',
      ''.x64'', ''.g64'', ''.crt'', ''.bin'', ''.rom'']"

definition zip_is_supported_extension_internal :: "string option \<Rightarrow> bool" where
  "zip_is_supported_extension_internal fname =
     (case fname of
        None \<Rightarrow> False
      | Some f \<Rightarrow>
          (case strrchr f (CHR ''.'') of
             None \<Rightarrow> False
           | Some ext \<Rightarrow> match_extension ext supported_exts))"

text \<open>The loop over \<open>archive->entries\<close>; the result is the value assigned to \<open>rom_filename\<close>.\<close>

fun find_rom_loop :: "ZipEntry list \<Rightarrow> string list option \<Rightarrow> string option" where
  "find_rom_loop [] supported_extensions = None"
| "find_rom_loop (entry # rest) supported_extensions =
     (if is_directory entry then find_rom_loop rest supported_extensions
      else
        (case strrchr (c_str (filename entry)) (CHR ''.'') of
           None \<Rightarrow> find_rom_loop rest supported_extensions
         | Some ext \<Rightarrow>
             (case supported_extensions of
                Some exts \<Rightarrow>
                  if match_extension ext exts then Some (filename entry)
                  else find_rom_loop rest supported_extensions
              | None \<Rightarrow>
                  if zip_is_supported_extension_internal (Some (c_str (filename entry)))
                  then Some (filename entry)
                  else find_rom_loop rest supported_extensions)))"

definition zip_find_rom_in_archive ::
  "world \<Rightarrow> handle_ptr \<Rightarrow> string list option \<Rightarrow> string \<Rightarrow> fault + (bool \<times> string)" where
  "zip_find_rom_in_archive w archive supported_extensions rom_filename =
     (case archive of
        None \<Rightarrow> Inr (False, rom_filename)
      | Some a \<Rightarrow>
          (case heap w a of
             None \<Rightarrow> Inl Use_after_free
           | Some h \<Rightarrow>
               if \<not> is_open h then Inr (False, rom_filename)
               else (case find_rom_loop (entries h) supported_extensions of
                       Some name \<Rightarrow> Inr (True, name)
                     | None \<Rightarrow> Inr (False, rom_filename))))"

definition zip_extract_rom_to_temp ::
  "world \<Rightarrow> string option \<Rightarrow> string list option \<Rightarrow> string \<Rightarrow> fault + (bool \<times> string \<times> world)" where
  "zip_extract_rom_to_temp w zip_path supported_extensions temp_rom_path =
     (case zip_open_archive w zip_path of
        Inl f \<Rightarrow> Inl f
      | Inr (archive, w1) \<Rightarrow>
          if archive = None then Inr (False, temp_rom_path, w1)
          else
            (case zip_find_rom_in_archive w1 archive supported_extensions [] of
               Inl f \<Rightarrow> Inl f
             | Inr (found, rom_filename) \<Rightarrow>
                 if \<not> found then
                   (case zip_close_archive w1 archive of
                      Inl f \<Rightarrow> Inl f
                    | Inr w2 \<Rightarrow> Inr (False, temp_rom_path, w2))
                 else
                   (case zip_extract_file_to_temp_internal w1 archive
                           (Some (c_str rom_filename)) temp_rom_path of
                      Inl f \<Rightarrow> Inl f
                    | Inr (success, temp_rom_path', w2) \<Rightarrow>
                        (case zip_close_archive w2 archive of
                           Inl f \<Rightarrow> Inl f
                         | Inr w3 \<Rightarrow> Inr (success, temp_rom_path', w3)))))"

section \<open>C-compatible wrappers\<close>

text \<open>
  The caller's \<open>char *\<close> output buffer is \<open>None\<close> when the pointer is null and otherwise
  holds the C string in the buffer; \<open>strcpy\<close> replaces it.
\<close>

definition zip_extract_file_to_temp_c ::
  "world \<Rightarrow> handle_ptr \<Rightarrow> string option \<Rightarrow> string option \<Rightarrow> nat
     \<Rightarrow> fault + (int \<times> string option \<times> world)" where
  "zip_extract_file_to_temp_c w archive fname temp_path buffer_size =
     (case zip_extract_file_to_temp_internal w archive fname [] of
        Inl f \<Rightarrow> Inl f
      | Inr (result, temp_path_str, w') \<Rightarrow>
          if result \<and> length temp_path_str < buffer_size then
            (case temp_path of
               None \<Rightarrow> Inl Null_pointer_access
             | Some old \<Rightarrow> Inr (1, Some (c_str temp_path_str), w'))
          else Inr (0, temp_path, w'))"

definition zip_extract_rom_to_temp_c ::
  "world \<Rightarrow> string option \<Rightarrow> string list option \<Rightarrow> string option \<Rightarrow> nat
     \<Rightarrow> fault + (int \<times> string option \<times> world)" where
  "zip_extract_rom_to_temp_c w zip_path supported_extensions temp_rom_path buffer_size =
     (case zip_extract_rom_to_temp w zip_path supported_extensions [] of
        Inl f \<Rightarrow> Inl f
      | Inr (result, temp_path_str, w') \<Rightarrow>
          if result \<and> length temp_path_str < buffer_size then
            (case temp_rom_path of
               None \<Rightarrow> Inl Null_pointer_access
             | Some old \<Rightarrow> Inr (1, Some (c_str temp_path_str), w'))
          else Inr (0, temp_rom_path, w'))"

text \<open>\<open>zip_list_contents\<close>: \<open>entries\<close> is the caller's memory behind the \<open>void *\<close>.\<close>

definition zip_list_contents :: "world \<Rightarrow> handle_ptr \<Rightarrow> 'a option \<Rightarrow> int \<times> 'a option \<times> world" where
  "zip_list_contents w archive entries_arg = (1, entries_arg, w)"

section \<open>Handle registry and bulk cleanup\<close>

text \<open>
  The range-based \<open>for\<close> over \<open>g_open_archives\<close> takes \<open>begin()\<close> and \<open>end()\<close> once, before
  the first iteration, and then reads the buffer at the running position, while
  \<open>zip_close_archive\<close> erases from the same vector.
\<close>

function cleanup_loop :: "world \<Rightarrow> nat \<Rightarrow> nat \<Rightarrow> fault + world" where
  "cleanup_loop w it e =
     (if it < e then
        (if it < length (storage (g_open_archives w)) then
           (case storage (g_open_archives w) ! it of
              None \<Rightarrow> cleanup_loop w (Suc it) e
            | Some a \<Rightarrow>
                (case heap w a of
                   None \<Rightarrow> Inl Use_after_free
                 | Some h \<Rightarrow>
                     if is_open h then
                       (case zip_close_archive w (Some a) of
                          Inl f \<Rightarrow> Inl f
                        | Inr w' \<Rightarrow> cleanup_loop w' (Suc it) e)
                     else cleanup_loop w (Suc it) e))
         else Inl Out_of_bounds_read)
      else Inr w)"
  by pat_completeness auto
termination
  by (relation "measure (\<lambda>(w, it, e). e - it)") auto

declare cleanup_loop.simps [simp del]

definition zip_cleanup_temp_files :: "world \<Rightarrow> fault + world" where
  "zip_cleanup_temp_files w =
     (case cleanup_loop w 0 (vsize (g_open_archives w)) of
        Inl f \<Rightarrow> Inl f
      | Inr w' \<Rightarrow> Inr (w'\<lparr>g_open_archives := clear (g_open_archives w')\<rparr>))"


section \<open>Notions of the specification\<close>

text \<open>
  A name ends, case-insensitively (ASCII fold), in an extension: its last characters,
  as many as the extension has, fold to the folded extension.
\<close>

definition ends_with_ci :: "string \<Rightarrow> string \<Rightarrow> bool" where
  "ends_with_ci name ext =
     (map to_lower (drop (length name - length ext) name) = map to_lower ext)"

text \<open>
  The metadata that can be read, in directory order; the catalog that the loop body
  builds from it, stopping at the first fault; and, for a name in the array
  \<open>char filename[MAX_FILENAME_LENGTH]\<close>, that it is not empty and fits the array with its
  terminating NUL, or that it is empty.
\<close>

definition readable :: "unzFile \<Rightarrow> (string \<times> unz_file_info) list" where
  "readable uf =
     List.map_filter (\<lambda>r. map_option (\<lambda>fi. (stored_name r, fi)) (file_info r)) uf"

fun build_entries :: "(string \<times> unz_file_info) list \<Rightarrow> fault + ZipEntry list" where
  "build_entries [] = Inr []"
| "build_entries ((fname, fi) # rest) =
     (case make_entry fname fi of
        Inl f \<Rightarrow> Inl f
      | Inr entry \<Rightarrow>
          (case build_entries rest of
             Inl f \<Rightarrow> Inl f
           | Inr es \<Rightarrow> Inr (entry # es)))"

definition name_fits :: "string \<times> unz_file_info \<Rightarrow> bool" where
  "name_fits m = (c_str (fst m) \<noteq> [] \<and> length (c_str (fst m)) < MAX_FILENAME_LENGTH)"

definition name_empty :: "string \<times> unz_file_info \<Rightarrow> bool" where
  "name_empty m = (c_str (fst m) = [])"

text \<open>
  The catalog entry that the data model prescribes for a name that is not empty and its
  metadata: the name, the two sizes, and the directory flag derived from a trailing \<open>/\<close>.
\<close>

definition entry_of :: "string \<times> unz_file_info \<Rightarrow> ZipEntry" where
  "entry_of m =
     \<lparr>filename = c_str (fst m),
      uncompressed_size = info_uncompressed_size (snd m),
      compressed_size = info_compressed_size (snd m),
      is_directory = (last (c_str (fst m)) = CHR ''/''),
      path = c_str (fst m)\<rparr>"

text \<open>The declared uncompressed size of an entry, as the \<open>long\<close> that \<open>*size\<close> receives.\<close>

definition declared_size :: "unz_file_info \<Rightarrow> int" where
  "declared_size fi = sint (info_uncompressed_size fi)"

text \<open>
  The \<open>.\<close>-delimited suffix of a name: the text from its last \<open>.\<close> on. Two strings are
  equal case-insensitively when they fold to the same string. The extension list in force
  is the supplied one, or the fixed default list when none is supplied. An entry qualifies
  when it is not a directory and its suffix equals, case-insensitively, some element of
  the list.
\<close>

definition suffix_from_last :: "char \<Rightarrow> string \<Rightarrow> string option" where
  "suffix_from_last c s =
     (if c \<in> set s then Some (c # rev (takeWhile (\<lambda>x. x \<noteq> c) (rev s))) else None)"

definition ci_equal :: "string \<Rightarrow> string \<Rightarrow> bool" where
  "ci_equal s t = (map to_lower s = map to_lower t)"

definition wanted_extensions :: "string list option \<Rightarrow> string list" where
  "wanted_extensions supplied = (case supplied of None \<Rightarrow> supported_exts | Some exts \<Rightarrow> exts)"

definition is_wanted :: "string list \<Rightarrow> ZipEntry \<Rightarrow> bool" where
  "is_wanted exts entry =
     (\<not> is_directory entry \<and>
      (case suffix_from_last (CHR ''.'') (c_str (filename entry)) of
         None \<Rightarrow> False
       | Some sfx \<Rightarrow> list_ex (\<lambda>x. ci_equal sfx (c_str x)) exts))"

text \<open>
  The base name of an entry name: the text after its last \<open>/\<close>. The destination of a
  scratch extraction for a counter value and an entry name. The number that a string of
  decimal digits denotes.
\<close>

definition base_name :: "string \<Rightarrow> string" where
  "base_name s = rev (takeWhile (\<lambda>c. c \<noteq> CHR ''/'') (rev s))"

definition scratch_path :: "int \<Rightarrow> string \<Rightarrow> string" where
  "scratch_path counter entry_name =
     TEMP_DIR @ ''temp_'' @ to_string counter @ ''_'' @ base_name entry_name"

definition digits_value :: "string \<Rightarrow> nat" where
  "digits_value s = foldl (\<lambda>acc c. 10 * acc + (of_char c - 48)) 0 s"

section \<open>Fixtures\<close>

text \<open>
  A container with a directory marker, an entry whose metadata cannot be read, and two
  media entries, the first of which declares one byte more than its payload holds; and a
  process state in which three container files can be opened and all file I/O succeeds.
\<close>

definition fixture_dir :: unzFile where
  "fixture_dir =
     [\<lparr>stored_name = ''data/'',
       file_info = Some \<lparr>info_uncompressed_size = 0, info_compressed_size = 0\<rparr>,
       opens = True, payload = Some []\<rparr>,
      \<lparr>stored_name = ''data/broken.prg'', file_info = None,
       opens = True, payload = Some [7]\<rparr>,
      \<lparr>stored_name = ''data/short.D64'',
       file_info = Some \<lparr>info_uncompressed_size = 4, info_compressed_size = 2\<rparr>,
       opens = True, payload = Some [1, 2, 3]\<rparr>,
      \<lparr>stored_name = ''data/game.crt'',
       file_info = Some \<lparr>info_uncompressed_size = 3, info_compressed_size = 2\<rparr>,
       opens = True, payload = Some [1, 2, 3]\<rparr>]"

definition fixture_world :: world where
  "fixture_world =
     \<lparr>heap = (\<lambda>a. None), next_addr = 0,
      g_open_archives = \<lparr>storage = [], vsize = 0\<rparr>,
      temp_counter = 0,
      unzOpen_env = (\<lambda>p. if p = ''a.zip'' \<or> p = ''b.ZIP'' \<or> p = ''c.zip''
                         then Some fixture_dir else None),
      dirs = [], files = (\<lambda>p. None),
      sceIoOpen_env = (\<lambda>p. True),
      sceIoWrite_env = (\<lambda>p n. int n)\<rparr>"

text \<open>
  The handle over that container as \<open>zip_open_archive\<close> makes it before the listing, and
  the catalog that the listing builds.
\<close>

definition fixture_handle :: ZipArchiveHandle where
  "fixture_handle =
     \<lparr>handle = Some fixture_dir, archive_path = ''a.zip'', is_open = True, entries = []\<rparr>"

definition fixture_catalog :: "ZipEntry list" where
  "fixture_catalog =
     [\<lparr>filename = ''data/'', uncompressed_size = 0, compressed_size = 0,
       is_directory = True, path = ''data/''\<rparr>,
      \<lparr>filename = ''data/short.D64'', uncompressed_size = 4, compressed_size = 2,
       is_directory = False, path = ''data/short.D64''\<rparr>,
      \<lparr>filename = ''data/game.crt'', uncompressed_size = 3, compressed_size = 2,
       is_directory = False, path = ''data/game.crt''\<rparr>]"

text \<open>A container whose second entry stores the empty name.\<close>

definition nameless_dir :: unzFile where
  "nameless_dir =
     [\<lparr>stored_name = ''a.prg'',
       file_info = Some \<lparr>info_uncompressed_size = 1, info_compressed_size = 1\<rparr>,
       opens = True, payload = Some [9]\<rparr>,
      \<lparr>stored_name = [],
       file_info = Some \<lparr>info_uncompressed_size = 0, info_compressed_size = 0\<rparr>,
       opens = True, payload = Some []\<rparr>]"

text \<open>A container whose only entry stores a name of 513 characters.\<close>

definition long_name_dir :: unzFile where
  "long_name_dir =
     [\<lparr>stored_name = replicate 513 (CHR ''a''),
       file_info = Some \<lparr>info_uncompressed_size = 1, info_compressed_size = 1\<rparr>,
       opens = True, payload = Some [9]\<rparr>]"

text \<open>The process state after \<open>a.zip\<close> was opened from \<open>fixture_world\<close>.\<close>

definition opened_handle :: ZipArchiveHandle where
  "opened_handle = fixture_handle\<lparr>entries := fixture_catalog\<rparr>"

definition opened_world :: world where
  "opened_world =
     fixture_world\<lparr>heap := (heap fixture_world)(0 := Some opened_handle),
                   next_addr := Suc 0,
                   g_open_archives := \<lparr>storage = [Some 0], vsize = Suc 0\<rparr>\<rparr>"

text \<open>
  The process states after \<open>data/game.crt\<close> was extracted to the scratch directory from
  \<open>opened_world\<close> once and twice, and after the handle was closed following the first
  extraction.
\<close>

definition extracted_world :: world where
  "extracted_world =
     opened_world\<lparr>temp_counter := 1,
                  dirs := [''ux0:temp/vicevita_zip/''],
                  files := (files opened_world)
                    (''ux0:temp/vicevita_zip/temp_1_game.crt'' := Some [1, 2, 3])\<rparr>"

definition extracted_twice_world :: world where
  "extracted_twice_world =
     extracted_world\<lparr>temp_counter := 2,
                  files := (files extracted_world)
                    (''ux0:temp/vicevita_zip/temp_2_game.crt'' := Some [1, 2, 3])\<rparr>"

definition closed_world :: world where
  "closed_world =
     extracted_world\<lparr>heap := (heap extracted_world)(0 := None),
                     g_open_archives := \<lparr>storage = [Some 0], vsize = 0\<rparr>\<rparr>"

text \<open>The process states after \<open>b.ZIP\<close> and then \<open>c.zip\<close> were opened as well.\<close>

definition two_open_world :: world where
  "two_open_world =
     opened_world\<lparr>heap := (heap opened_world)(1 := Some (opened_handle\<lparr>archive_path := ''b.ZIP''\<rparr>)),
                  next_addr := 2,
                  g_open_archives := \<lparr>storage = [Some 0, Some 1], vsize = 2\<rparr>\<rparr>"

definition three_open_world :: world where
  "three_open_world =
     two_open_world\<lparr>heap := (heap two_open_world)(2 := Some (opened_handle\<lparr>archive_path := ''c.zip''\<rparr>)),
                  next_addr := 3,
                  g_open_archives := \<lparr>storage = [Some 0, Some 1, Some 2], vsize = 3\<rparr>\<rparr>"

text \<open>What is observed of the handles and the registry in a state.\<close>

definition registry_view ::
  "world \<Rightarrow> bool option list \<times> handle_ptr list \<times> handle_ptr list" where
  "registry_view w =
     (map (\<lambda>a. map_option is_open (heap w a)) [0, 1, 2],
      elements (g_open_archives w), storage (g_open_archives w))"

section \<open>C strings: facts\<close>

lemma c_str_Nil [simp]: "c_str [] = []"
  by (simp add: c_str_def)

lemma c_str_Cons: "c_str (a # s) = (if a = NUL then [] else a # c_str s)"
  by (simp add: c_str_def)

lemma c_str_empty_iff: "(c_str t = []) = (deref t = NUL)"
  by (cases t) (simp_all add: c_str_Cons)

lemma char_diff_zero [simp]: "(char_diff a b = 0) = (a = b)"
  by (simp add: char_diff_def)

lemma strcasecmp_custom_Cons:
  "a \<noteq> NUL \<Longrightarrow> b \<noteq> NUL \<Longrightarrow>
   strcasecmp_custom (a # r1) (b # r2) =
     (if to_lower a \<noteq> to_lower b then char_diff (to_lower a) (to_lower b)
      else strcasecmp_custom r1 r2)"
  by (subst strcasecmp_custom.simps) (simp add: Let_def)

lemma strcasecmp_custom_end:
  "deref s1 = NUL \<or> deref s2 = NUL \<Longrightarrow>
   strcasecmp_custom s1 s2 = char_diff (deref s1) (deref s2)"
  by (subst strcasecmp_custom.simps) auto

text \<open>The comparison answers 0 exactly when the two C strings fold to the same string.\<close>

lemma strcasecmp_custom_zero_iff:
  "(strcasecmp_custom s t = 0) = (map to_lower (c_str s) = map to_lower (c_str t))"
proof (induction s arbitrary: t)
  case Nil
  have "strcasecmp_custom [] t = char_diff NUL (deref t)"
    using strcasecmp_custom_end [of "[]" t] by simp
  then show ?case using c_str_empty_iff [of t] by auto
next
  case (Cons a r)
  show ?case
  proof (cases "a = NUL \<or> deref t = NUL")
    case True
    then have "strcasecmp_custom (a # r) t = char_diff a (deref t)"
      using strcasecmp_custom_end [of "a # r" t] by simp
    moreover have "(c_str (a # r) = []) = (a = NUL)" by (simp add: c_str_Cons)
    ultimately show ?thesis using True c_str_empty_iff [of t] by auto
  next
    case False
    then obtain b r2 where t: "t = b # r2" "b \<noteq> NUL" by (cases t) auto
    from False have a: "a \<noteq> NUL" by simp
    show ?thesis
      using Cons.IH [of r2] a t by (simp add: strcasecmp_custom_Cons c_str_Cons)
  qed
qed

text \<open>The pointer that \<open>strrchr\<close> answers points into the C string it searched.\<close>

lemma strrchr_suffix:
  "strrchr f c = Some r \<Longrightarrow> \<exists>pre. c_str f = pre @ c_str r"
proof (induction f)
  case Nil
  then show ?case by simp
next
  case (Cons x xs)
  show ?case
  proof (cases "x = NUL")
    case True
    then show ?thesis using Cons.prems by simp
  next
    case False
    show ?thesis
    proof (cases "strrchr xs c")
      case None
      then have "r = x # xs" using Cons.prems False by (simp split: if_splits)
      then show ?thesis by simp
    next
      case (Some r')
      then have "r = r'" using Cons.prems False by simp
      then obtain pre where "c_str xs = pre @ c_str r" using Cons.IH Some by auto
      then have "c_str (x # xs) = (x # pre) @ c_str r" using False by (simp add: c_str_Cons)
      then show ?thesis by blast
    qed
  qed
qed

section \<open>Opening a container\<close>

lemma c_str_zip: "c_str ''.zip'' = ''.zip''"
  by (simp add: c_str_Cons NUL_def)

lemma zip_is_archive_ends:
  assumes "zip_is_archive (Some p) \<noteq> 0"
  shows "ends_with_ci (c_str p) ''.zip''"
proof -
  from assms obtain ext where e: "strrchr p (CHR ''.'') = Some ext"
      "strcasecmp_custom ext ''.zip'' = 0"
    by (auto simp: zip_is_archive_def split: option.splits if_splits)
  then have m: "map to_lower (c_str ext) = map to_lower ''.zip''"
    by (simp add: strcasecmp_custom_zero_iff c_str_zip)
  then have "length (map to_lower (c_str ext)) = length (map to_lower ''.zip'')"
    by (rule arg_cong)
  then have l: "length (c_str ext) = length ''.zip''" by simp
  obtain pre where "c_str p = pre @ c_str ext" using strrchr_suffix [OF e(1)] by blast
  then show ?thesis using m l by (simp add: ends_with_ci_def)
qed

text \<open>
  C4. For every path whose name does not end, case-insensitively, in the container
  extension \<open>.zip\<close> (names without a dot, the empty name and the null pointer included),
  \<open>zip_open_archive\<close> returns no handle; the process state is as before.
\<close>

theorem open_rejects_non_container:
  "(case p of None \<Rightarrow> True | Some n \<Rightarrow> \<not> ends_with_ci (c_str n) ''.zip'')
     \<Longrightarrow> zip_open_archive w p = Inr (None, w)"
proof (cases p)
  case None
  then show ?thesis by (simp add: zip_open_archive_def)
next
  case (Some n)
  assume "case p of None \<Rightarrow> True | Some n \<Rightarrow> \<not> ends_with_ci (c_str n) ''.zip''"
  then have "zip_is_archive (Some n) = 0" using Some zip_is_archive_ends by auto
  then show ?thesis using Some by (simp add: zip_open_archive_def)
qed

theorem open_rejects_non_container_witness:
  "\<not> ends_with_ci (c_str ''game.d64'') ''.zip''
   \<and> zip_open_archive fixture_world (Some ''game.d64'') = Inr (None, fixture_world)
   \<and> \<not> ends_with_ci (c_str ''readme'') ''.zip''
   \<and> zip_open_archive fixture_world (Some ''readme'') = Inr (None, fixture_world)
   \<and> \<not> ends_with_ci (c_str []) ''.zip''
   \<and> zip_open_archive fixture_world (Some []) = Inr (None, fixture_world)
   \<and> zip_open_archive fixture_world None = Inr (None, fixture_world)"
proof -
  have a: "\<not> ends_with_ci (c_str ''game.d64'') ''.zip''"
    by (simp add: ends_with_ci_def c_str_Cons NUL_def to_lower_def)
  have b: "\<not> ends_with_ci (c_str ''readme'') ''.zip''"
    by (simp add: ends_with_ci_def c_str_Cons NUL_def to_lower_def)
  have c: "\<not> ends_with_ci (c_str []) ''.zip''"
    by (simp add: ends_with_ci_def)
  show ?thesis
    using a b c
      open_rejects_non_container [of "Some ''game.d64''" fixture_world]
      open_rejects_non_container [of "Some ''readme''" fixture_world]
      open_rejects_non_container [of "Some []" fixture_world]
      open_rejects_non_container [of None fixture_world]
    by simp
qed

section \<open>The public listing operation\<close>

text \<open>
  C8. \<open>zip_list_contents\<close> answers 1 for every handle pointer and every \<open>entries\<close>
  pointer, null ones included, whatever the catalog of the handle holds; the caller's
  \<open>entries\<close> memory and the process state are as before.
\<close>

theorem zip_list_contents_reports_nothing:
  "fst (zip_list_contents w archive es) = 1
   \<and> fst (snd (zip_list_contents w archive es)) = es
   \<and> snd (snd (zip_list_contents w archive es)) = w
   \<and> zip_list_contents w archive es = zip_list_contents w None es"
  by (simp add: zip_list_contents_def)

section \<open>Entry catalog: facts\<close>

lemma readable_Nil [simp]: "readable [] = []"
  by (simp add: readable_def map_filter_simps)

lemma readable_Cons:
  "readable (r # rs) =
     (case file_info r of None \<Rightarrow> readable rs | Some fi \<Rightarrow> (stored_name r, fi) # readable rs)"
  by (simp add: readable_def map_filter_simps split: option.splits)

lemma readable_append: "readable (xs @ ys) = readable xs @ readable ys"
  by (simp add: readable_def map_filter_def)

text \<open>From any cursor position, the loop appends the catalog of the readable rest.\<close>

lemma list_loop_char:
  "cur < length uf \<Longrightarrow>
   list_loop uf cur es =
     (case build_entries (readable (drop cur uf)) of
        Inl f \<Rightarrow> Inl f
      | Inr es' \<Rightarrow> Inr (es @ es'))"
proof (induction uf cur es rule: list_loop.induct)
  case (1 uf cur es)
  from "1.prems" have d: "drop cur uf = uf ! cur # drop (Suc cur) uf"
    by (simp add: Cons_nth_drop_Suc)
  have last: "\<not> Suc cur < length uf \<Longrightarrow> drop (Suc cur) uf = []" by simp
  have nxt: "unzGoToNextFile uf cur = (if Suc cur < length uf then Some (Suc cur) else None)"
    by (simp add: unzGoToNextFile_def)
  show ?case
  proof (cases "file_info (uf ! cur)")
    case None
    then have g: "unzGetCurrentFileInfo uf cur = None"
      using "1.prems" by (simp add: unzGetCurrentFileInfo_def)
    have r: "readable (drop cur uf) = readable (drop (Suc cur) uf)"
      using d None by (simp add: readable_Cons)
    show ?thesis
    proof (cases "Suc cur < length uf")
      case True
      then have n: "unzGoToNextFile uf cur = Some (Suc cur)" using nxt by simp
      show ?thesis using g r n "1.IH"(1) [OF g n True]
        by (subst list_loop.simps) simp
    next
      case False
      then have n: "unzGoToNextFile uf cur = None" using nxt by simp
      show ?thesis using g r n last [OF False]
        by (subst list_loop.simps) simp
    qed
  next
    case (Some fi)
    then have g: "unzGetCurrentFileInfo uf cur = Some (stored_name (uf ! cur), fi)"
      using "1.prems" by (simp add: unzGetCurrentFileInfo_def)
    have r: "readable (drop cur uf) = (stored_name (uf ! cur), fi) # readable (drop (Suc cur) uf)"
      using d Some by (simp add: readable_Cons)
    show ?thesis
    proof (cases "make_entry (stored_name (uf ! cur)) fi")
      case (Inl f)
      then show ?thesis using g r by (subst list_loop.simps) simp
    next
      case (Inr entry)
      show ?thesis
      proof (cases "Suc cur < length uf")
        case True
        then have n: "unzGoToNextFile uf cur = Some (Suc cur)" using nxt by simp
        show ?thesis
          using g r Inr n "1.IH"(2) [OF g refl Inr n True]
          by (subst list_loop.simps) (simp split: sum.splits)
      next
        case False
        then have n: "unzGoToNextFile uf cur = None" using nxt by simp
        show ?thesis using g r Inr n last [OF False]
          by (subst list_loop.simps) simp
      qed
    qed
  qed
qed

lemma zip_list_contents_internal_char:
  assumes "is_open h" "handle h = Some uf" "uf \<noteq> []"
  shows "zip_list_contents_internal (Some h) es0 =
     (case build_entries (readable uf) of
        Inl f \<Rightarrow> Inl f
      | Inr es \<Rightarrow> Inr (True, es))"
proof -
  from assms(3) have "0 < length uf" by simp
  then have l: "list_loop uf 0 [] =
     (case build_entries (readable uf) of Inl f \<Rightarrow> Inl f | Inr es' \<Rightarrow> Inr es')"
    using list_loop_char [of 0 uf "[]"]
    by (cases "build_entries (readable uf)") simp_all
  have "zip_list_contents_internal (Some h) es0 =
     (case list_loop uf 0 [] of Inl f \<Rightarrow> Inl f | Inr es' \<Rightarrow> Inr (True, es'))"
    using assms by (simp add: zip_list_contents_internal_def unzGoToFirstFile_def)
  then show ?thesis
    by (cases "build_entries (readable uf)") (simp_all add: l)
qed

lemma fixture_listing:
  "zip_list_contents_internal (Some fixture_handle) [] = Inr (True, fixture_catalog)"
  by (simp add: zip_list_contents_internal_def fixture_handle_def fixture_dir_def
      fixture_catalog_def unzGoToFirstFile_def list_loop.simps unzGetCurrentFileInfo_def
      unzGoToNextFile_def
      make_entry_def dir_flag_index_def c_str_Cons NUL_def MAX_FILENAME_LENGTH_def)

section \<open>The directory flag\<close>

lemma dir_flag_index_empty: "c_str fname = [] \<Longrightarrow> dir_flag_index fname = 4294967295"
  by (simp add: dir_flag_index_def unsigned_minus_1_eq_mask mask_eq_exp_minus_1)

lemma dir_flag_index_nonempty:
  assumes "c_str fname \<noteq> []" "length (c_str fname) < MAX_FILENAME_LENGTH"
  shows "dir_flag_index fname = length (c_str fname) - 1"
proof -
  let ?n = "length (c_str fname)"
  from assms(1) have n: "1 \<le> ?n" by (cases "c_str fname") simp_all
  then have "(word_of_nat ?n :: 32 word) - 1 = word_of_nat (?n - 1)"
    by (simp add: of_nat_diff)
  moreover have "?n - 1 < 2 ^ 32" using assms(2) by (simp add: MAX_FILENAME_LENGTH_def)
  ultimately show ?thesis
    by (simp add: dir_flag_index_def unat_of_nat)
qed

lemma deref_drop_c_str:
  "i < length (c_str s) \<Longrightarrow> deref (drop i s) = c_str s ! i"
proof -
  assume i: "i < length (c_str s)"
  have le: "length (c_str s) \<le> length s" by (simp add: c_str_def length_takeWhile_le)
  then have "drop i s = s ! i # drop (Suc i) s" using i by (simp add: Cons_nth_drop_Suc)
  moreover have "c_str s ! i = s ! i" using i by (simp add: c_str_def takeWhile_nth)
  ultimately show ?thesis by simp
qed

lemma make_entry_in_bounds:
  assumes "c_str fname \<noteq> []" "length (c_str fname) < MAX_FILENAME_LENGTH"
  shows "dir_flag_index fname < MAX_FILENAME_LENGTH"
    and "make_entry fname fi =
          Inr \<lparr>filename = c_str fname,
               uncompressed_size = info_uncompressed_size fi,
               compressed_size = info_compressed_size fi,
               is_directory = (last (c_str fname) = CHR ''/''),
               path = c_str fname\<rparr>"
proof -
  have i: "dir_flag_index fname = length (c_str fname) - 1"
    using assms by (rule dir_flag_index_nonempty)
  with assms show b: "dir_flag_index fname < MAX_FILENAME_LENGTH" by arith
  from assms(1) have "length (c_str fname) - 1 < length (c_str fname)"
    by (cases "c_str fname") simp_all
  then have "deref (drop (dir_flag_index fname) fname) = c_str fname ! (length (c_str fname) - 1)"
    using i deref_drop_c_str by simp
  also have "\<dots> = last (c_str fname)" using assms(1) by (simp add: last_conv_nth)
  finally show "make_entry fname fi =
          Inr \<lparr>filename = c_str fname,
               uncompressed_size = info_uncompressed_size fi,
               compressed_size = info_compressed_size fi,
               is_directory = (last (c_str fname) = CHR ''/''),
               path = c_str fname\<rparr>"
    using b assms(2) by (simp add: make_entry_def)
qed

lemma make_entry_out_of_bounds:
  assumes "c_str fname = []"
  shows "\<not> dir_flag_index fname < MAX_FILENAME_LENGTH"
    and "make_entry fname fi = Inl Out_of_bounds_read"
proof -
  show b: "\<not> dir_flag_index fname < MAX_FILENAME_LENGTH"
    using dir_flag_index_empty [OF assms] by (simp add: MAX_FILENAME_LENGTH_def)
  then show "make_entry fname fi = Inl Out_of_bounds_read" by (simp add: make_entry_def)
qed

lemma make_entry_fault: "make_entry fname fi = Inl f \<Longrightarrow> f = Out_of_bounds_read"
  by (simp add: make_entry_def split: if_splits)

lemma build_entries_fits:
  "list_all name_fits ms \<Longrightarrow> \<exists>es. build_entries ms = Inr es"
proof (induction ms)
  case Nil
  then show ?case by simp
next
  case (Cons m ms)
  obtain n fi where m: "m = (n, fi)" by (cases m)
  from Cons.prems have "name_fits m" by simp
  then have "c_str n \<noteq> []" "length (c_str n) < MAX_FILENAME_LENGTH"
    using m by (simp_all add: name_fits_def)
  then obtain e where "make_entry n fi = Inr e"
    using make_entry_in_bounds(2) [of n fi] by blast
  moreover from Cons obtain es where "build_entries ms = Inr es" by auto
  ultimately show ?case using m by simp
qed

lemma build_entries_empty_name:
  "list_ex name_empty ms \<Longrightarrow> build_entries ms = Inl Out_of_bounds_read"
proof (induction ms)
  case Nil
  then show ?case by simp
next
  case (Cons m ms)
  obtain n fi where m: "m = (n, fi)" by (cases m)
  show ?case
  proof (cases "make_entry n fi")
    case (Inl f)
    then show ?thesis using m make_entry_fault by auto
  next
    case (Inr e)
    then have "c_str n \<noteq> []" using make_entry_out_of_bounds(2) [of n fi] by auto
    then have "\<not> name_empty m" using m by (simp add: name_empty_def)
    then have "list_ex name_empty ms" using Cons.prems by simp
    then show ?thesis using Cons.IH Inr m by simp
  qed
qed

section \<open>Skipping an unreadable entry\<close>

lemma build_entries_entry_of:
  "list_all name_fits ms \<Longrightarrow> build_entries ms = Inr (map entry_of ms)"
proof (induction ms)
  case Nil
  then show ?case by simp
next
  case (Cons m ms)
  obtain n fi where m: "m = (n, fi)" by (cases m)
  from Cons.prems have "name_fits m" by simp
  then have "c_str n \<noteq> []" "length (c_str n) < MAX_FILENAME_LENGTH"
    using m by (simp_all add: name_fits_def)
  then have "make_entry n fi = Inr (entry_of m)"
    using make_entry_in_bounds(2) [of n fi] m by (simp add: entry_of_def)
  moreover from Cons have "build_entries ms = Inr (map entry_of ms)" by simp
  ultimately show ?case using m by simp
qed

lemma readable_mem:
  "r \<in> set xs \<Longrightarrow> file_info r = Some fi \<Longrightarrow> (stored_name r, fi) \<in> set (readable xs)"
  by (induction xs) (auto simp: readable_Cons split: option.splits)

text \<open>
  C5. While the catalog is built, an entry whose metadata cannot be read is the only one
  left out. For a directory \<open>pre @ bad # post\<close> with \<open>bad\<close> unreadable, the listing
  reports success and its catalog is built from the readable entries of \<open>pre\<close> followed
  by the readable entries of \<open>post\<close>, in directory order: the cursor moves past \<open>bad\<close>
  and every readable entry after it is listed. When the names fit their array, the catalog
  is the list of the entries that the data model prescribes for them, and each readable
  entry of \<open>post\<close> is in it. The listing equals the one of the directory without \<open>bad\<close>.
\<close>

theorem catalog_skips_unreadable_entry:
  assumes "file_info bad = None" "is_open h" "handle h = Some (pre @ bad # post)"
  shows "zip_list_contents_internal (Some h) es0 =
           (case build_entries (readable pre @ readable post) of
              Inl f \<Rightarrow> Inl f
            | Inr es \<Rightarrow> Inr (True, es))
         \<and> (list_all name_fits (readable pre) \<and> list_all name_fits (readable post) \<longrightarrow>
              zip_list_contents_internal (Some h) es0 =
                Inr (True, map entry_of (readable pre) @ map entry_of (readable post))
              \<and> (\<forall>r fi. r \<in> set post \<and> file_info r = Some fi \<longrightarrow>
                    entry_of (stored_name r, fi)
                      \<in> set (map entry_of (readable pre) @ map entry_of (readable post))))
         \<and> zip_list_contents_internal (Some h) es0 =
             (case zip_list_contents_internal (Some (h\<lparr>handle := Some (pre @ post)\<rparr>)) es0 of
                Inl f \<Rightarrow> Inl f
              | Inr (listed, es) \<Rightarrow> Inr (True, es))"
proof -
  have r: "readable (pre @ bad # post) = readable pre @ readable post"
    using assms(1) by (simp add: readable_append readable_Cons)
  have lhs: "zip_list_contents_internal (Some h) es0 =
     (case build_entries (readable pre @ readable post) of
        Inl f \<Rightarrow> Inl f
      | Inr es \<Rightarrow> Inr (True, es))"
    using zip_list_contents_internal_char [OF assms(2,3)] r by simp
  have expl: "zip_list_contents_internal (Some h) es0 =
                Inr (True, map entry_of (readable pre) @ map entry_of (readable post))"
    if "list_all name_fits (readable pre) \<and> list_all name_fits (readable post)"
  proof -
    from that have "list_all name_fits (readable pre @ readable post)" by simp
    then have "build_entries (readable pre @ readable post)
        = Inr (map entry_of (readable pre @ readable post))"
      by (rule build_entries_entry_of)
    then show ?thesis using lhs by simp
  qed
  have om: "zip_list_contents_internal (Some h) es0 =
             (case zip_list_contents_internal (Some (h\<lparr>handle := Some (pre @ post)\<rparr>)) es0 of
                Inl f \<Rightarrow> Inl f
              | Inr (listed, es) \<Rightarrow> Inr (True, es))"
  proof (cases "pre @ post = []")
    case True
    then show ?thesis using lhs assms(2)
      by (simp add: zip_list_contents_internal_def unzGoToFirstFile_def)
  next
    case False
    have "zip_list_contents_internal (Some (h\<lparr>handle := Some (pre @ post)\<rparr>)) es0 =
      (case build_entries (readable (pre @ post)) of
        Inl f \<Rightarrow> Inl f
      | Inr es \<Rightarrow> Inr (True, es))"
      using zip_list_contents_internal_char
          [of "h\<lparr>handle := Some (pre @ post)\<rparr>" "pre @ post" es0] assms(2) False
      by simp
    then show ?thesis using lhs
      by (cases "build_entries (readable (pre @ post))") (simp_all add: readable_append)
  qed
  have mem: "entry_of (stored_name r, fi)
      \<in> set (map entry_of (readable pre) @ map entry_of (readable post))"
    if "r \<in> set post \<and> file_info r = Some fi" for r fi
    using that readable_mem [of r post fi] by auto
  show ?thesis using lhs expl om mem by blast
qed

theorem catalog_skips_unreadable_entry_witness:
  "file_info (fixture_dir ! 1) = None
   \<and> is_open fixture_handle
   \<and> handle fixture_handle = Some (take 1 fixture_dir @ fixture_dir ! 1 # drop 2 fixture_dir)
   \<and> list_all name_fits (readable (take 1 fixture_dir))
   \<and> list_all name_fits (readable (drop 2 fixture_dir))
   \<and> map entry_of (readable (take 1 fixture_dir)) @ map entry_of (readable (drop 2 fixture_dir))
       = fixture_catalog
   \<and> zip_list_contents_internal (Some fixture_handle) [] = Inr (True, fixture_catalog)
   \<and> length fixture_dir = 4 \<and> length fixture_catalog = 3
   \<and> map filename fixture_catalog = [''data/'', ''data/short.D64'', ''data/game.crt'']"
proof -
  have a: "file_info (fixture_dir ! 1) = None" by (simp add: fixture_dir_def)
  have b: "is_open fixture_handle" by (simp add: fixture_handle_def)
  have c: "handle fixture_handle
      = Some (take 1 fixture_dir @ fixture_dir ! 1 # drop 2 fixture_dir)"
    by (simp add: fixture_handle_def fixture_dir_def)
  have f: "list_all name_fits (readable (take 1 fixture_dir))"
    "list_all name_fits (readable (drop 2 fixture_dir))"
    by (simp_all add: fixture_dir_def readable_Cons name_fits_def c_str_Cons NUL_def
        MAX_FILENAME_LENGTH_def)
  have e: "map entry_of (readable (take 1 fixture_dir))
        @ map entry_of (readable (drop 2 fixture_dir)) = fixture_catalog"
    by (simp add: fixture_dir_def readable_Cons entry_of_def fixture_catalog_def c_str_Cons
        NUL_def)
  have "zip_list_contents_internal (Some fixture_handle) []
      = Inr (True, map entry_of (readable (take 1 fixture_dir))
                     @ map entry_of (readable (drop 2 fixture_dir)))"
    using catalog_skips_unreadable_entry [OF a b c, of "[]"] f by blast
  then have "zip_list_contents_internal (Some fixture_handle) [] = Inr (True, fixture_catalog)"
    by (simp only: e)
  then show ?thesis using a b c f e by (simp add: fixture_dir_def fixture_catalog_def)
qed

section \<open>The directory flag: bounds\<close>

lemma c_str_replicate: "a \<noteq> NUL \<Longrightarrow> c_str (replicate n a) = replicate n a"
  by (induction n) (simp_all add: c_str_Cons)

text \<open>
  C9, as the claim states it, at a name of 513 characters: the name is not empty, the index
  \<open>strlen(name) - 1\<close> is 512, outside the array of 512 characters, and the catalog of a
  container with this entry is built with an out-of-bounds read.
\<close>

theorem long_name_read_out_of_bounds_counterexample:
  "c_str (replicate 513 (CHR ''a'')) \<noteq> []
   \<and> \<not> name_empty (replicate 513 (CHR ''a''),
                     \<lparr>info_uncompressed_size = 1, info_compressed_size = 1\<rparr>)
   \<and> dir_flag_index (replicate 513 (CHR ''a'')) = 512
   \<and> \<not> dir_flag_index (replicate 513 (CHR ''a'')) < MAX_FILENAME_LENGTH
   \<and> make_entry (replicate 513 (CHR ''a''))
        \<lparr>info_uncompressed_size = 1, info_compressed_size = 1\<rparr> = Inl Out_of_bounds_read
   \<and> zip_list_contents_internal (Some (fixture_handle\<lparr>handle := Some long_name_dir\<rparr>)) []
       = Inl Out_of_bounds_read"
proof -
  have a: "CHR ''a'' \<noteq> NUL" by (simp add: NUL_def)
  have c: "c_str (replicate 513 (CHR ''a'')) = replicate 513 (CHR ''a'')"
    using a by (rule c_str_replicate)
  have i: "dir_flag_index (replicate 513 (CHR ''a'')) = 512"
    by (simp add: dir_flag_index_def c)
  have m: "make_entry (replicate 513 (CHR ''a'')) fi = Inl Out_of_bounds_read" for fi
    by (simp add: make_entry_def c MAX_FILENAME_LENGTH_def)
  have l: "zip_list_contents_internal (Some (fixture_handle\<lparr>handle := Some long_name_dir\<rparr>)) []
       = Inl Out_of_bounds_read"
    using zip_list_contents_internal_char
      [of "fixture_handle\<lparr>handle := Some long_name_dir\<rparr>" long_name_dir "[]"]
    by (simp add: fixture_handle_def long_name_dir_def readable_Cons m)
  show ?thesis using c i m l
    by (simp add: name_empty_def MAX_FILENAME_LENGTH_def)
qed

text \<open>
  C9, amended. The directory flag of an entry is read from the name's array at index
  \<open>strlen(name) - 1\<close>, computed in \<open>size_t\<close>. For a name that is not empty and that the
  array of \<open>MAX_FILENAME_LENGTH\<close> characters holds together with its terminating NUL, the
  index is the position of the last character, inside the array, and the flag says whether
  that character is \<open>/\<close>; when every readable entry has such a name the whole catalog is
  built without an out-of-bounds read. For the empty name the index wraps to \<open>2^32 - 1\<close>,
  outside the array, and a catalog with such an entry is built with an out-of-bounds read.
\<close>

theorem directory_flag_read_bounds:
  "(name_fits (fname, fi) \<longrightarrow>
      dir_flag_index fname = length (c_str fname) - 1
      \<and> dir_flag_index fname < MAX_FILENAME_LENGTH
      \<and> make_entry fname fi =
          Inr \<lparr>filename = c_str fname,
               uncompressed_size = info_uncompressed_size fi,
               compressed_size = info_compressed_size fi,
               is_directory = (last (c_str fname) = CHR ''/''),
               path = c_str fname\<rparr>)
   \<and> (name_empty (fname, fi) \<longrightarrow>
      dir_flag_index fname = 2 ^ 32 - 1
      \<and> \<not> dir_flag_index fname < MAX_FILENAME_LENGTH
      \<and> make_entry fname fi = Inl Out_of_bounds_read)
   \<and> (is_open h \<and> handle h = Some uf \<and> list_all name_fits (readable uf) \<longrightarrow>
      (\<exists>r. zip_list_contents_internal (Some h) es0 = Inr r))
   \<and> (is_open h \<and> handle h = Some uf \<and> list_ex name_empty (readable uf) \<longrightarrow>
      zip_list_contents_internal (Some h) es0 = Inl Out_of_bounds_read)"
proof (intro conjI impI)
  assume "name_fits (fname, fi)"
  then have a: "c_str fname \<noteq> []" "length (c_str fname) < MAX_FILENAME_LENGTH"
    by (simp_all add: name_fits_def)
  then show "dir_flag_index fname = length (c_str fname) - 1"
    by (rule dir_flag_index_nonempty)
  from a show "dir_flag_index fname < MAX_FILENAME_LENGTH"
    by (rule make_entry_in_bounds(1))
  from a show "make_entry fname fi =
          Inr \<lparr>filename = c_str fname,
               uncompressed_size = info_uncompressed_size fi,
               compressed_size = info_compressed_size fi,
               is_directory = (last (c_str fname) = CHR ''/''),
               path = c_str fname\<rparr>"
    by (rule make_entry_in_bounds(2))
next
  assume "name_empty (fname, fi)"
  then have e: "c_str fname = []" by (simp add: name_empty_def)
  then show "dir_flag_index fname = 2 ^ 32 - 1" by (simp add: dir_flag_index_empty)
  from e show "\<not> dir_flag_index fname < MAX_FILENAME_LENGTH"
    by (rule make_entry_out_of_bounds(1))
  from e show "make_entry fname fi = Inl Out_of_bounds_read"
    by (rule make_entry_out_of_bounds(2))
next
  assume a: "is_open h \<and> handle h = Some uf \<and> list_all name_fits (readable uf)"
  show "\<exists>r. zip_list_contents_internal (Some h) es0 = Inr r"
  proof (cases "uf = []")
    case True
    then have "zip_list_contents_internal (Some h) es0 = Inr (False, [])"
      using a by (simp add: zip_list_contents_internal_def unzGoToFirstFile_def)
    then show ?thesis by blast
  next
    case False
    from a obtain es where "build_entries (readable uf) = Inr es"
      using build_entries_fits by blast
    then have "zip_list_contents_internal (Some h) es0 = Inr (True, es)"
      using zip_list_contents_internal_char [of h uf es0] a False by simp
    then show ?thesis by blast
  qed
next
  assume a: "is_open h \<and> handle h = Some uf \<and> list_ex name_empty (readable uf)"
  then have "readable uf \<noteq> []" by auto
  then have ne: "uf \<noteq> []" by auto
  from a have "build_entries (readable uf) = Inl Out_of_bounds_read"
    using build_entries_empty_name by blast
  then show "zip_list_contents_internal (Some h) es0 = Inl Out_of_bounds_read"
    using zip_list_contents_internal_char [of h uf es0] a ne by simp
qed

theorem directory_flag_read_bounds_witness:
  "name_fits (''data/'', \<lparr>info_uncompressed_size = 0, info_compressed_size = 0\<rparr>)
   \<and> dir_flag_index ''data/'' = 4
   \<and> make_entry ''data/'' \<lparr>info_uncompressed_size = 0, info_compressed_size = 0\<rparr>
       = Inr \<lparr>filename = ''data/'', uncompressed_size = 0, compressed_size = 0,
              is_directory = True, path = ''data/''\<rparr>
   \<and> name_empty ([], \<lparr>info_uncompressed_size = 0, info_compressed_size = 0\<rparr>)
   \<and> dir_flag_index [] = 4294967295
   \<and> make_entry [] \<lparr>info_uncompressed_size = 0, info_compressed_size = 0\<rparr>
       = Inl Out_of_bounds_read
   \<and> list_all name_fits (readable fixture_dir)
   \<and> (\<exists>r. zip_list_contents_internal (Some fixture_handle) [] = Inr r)
   \<and> list_ex name_empty (readable nameless_dir)
   \<and> zip_list_contents_internal (Some (fixture_handle\<lparr>handle := Some nameless_dir\<rparr>)) []
       = Inl Out_of_bounds_read"
proof -
  let ?fi = "\<lparr>info_uncompressed_size = 0, info_compressed_size = 0\<rparr>"
  have a: "name_fits (''data/'', ?fi)"
    by (simp add: name_fits_def c_str_Cons NUL_def MAX_FILENAME_LENGTH_def)
  have b: "name_empty ([], ?fi)" by (simp add: name_empty_def)
  have c: "list_all name_fits (readable fixture_dir)"
    by (simp add: fixture_dir_def readable_Cons name_fits_def c_str_Cons NUL_def
        MAX_FILENAME_LENGTH_def)
  have d: "list_ex name_empty (readable nameless_dir)"
    by (simp add: nameless_dir_def readable_Cons name_empty_def)
  have o: "is_open fixture_handle" "handle fixture_handle = Some fixture_dir"
    by (simp_all add: fixture_handle_def)
  have o': "is_open (fixture_handle\<lparr>handle := Some nameless_dir\<rparr>)"
    "handle (fixture_handle\<lparr>handle := Some nameless_dir\<rparr>) = Some nameless_dir"
    by (simp_all add: fixture_handle_def)
  show ?thesis
    using a b c d o o'
      directory_flag_read_bounds [of "''data/''" ?fi fixture_handle fixture_dir "[]"]
      directory_flag_read_bounds [of "[]" ?fi "fixture_handle\<lparr>handle := Some nameless_dir\<rparr>"
        nameless_dir "[]"]
    by (simp add: c_str_Cons NUL_def)
qed

section \<open>Fixtures: facts\<close>

lemmas fixture_defs = opened_world_def opened_handle_def fixture_world_def fixture_handle_def
  fixture_dir_def fixture_catalog_def

lemmas codec_defs = unzLocateFile_def unzGetCurrentFileInfo_def unzOpenCurrentFile_def
  unzReadCurrentFile_def c_str_Cons NUL_def

lemma fixture_open:
  "zip_open_archive fixture_world (Some ''a.zip'') = Inr (Some 0, opened_world)"
  using fixture_listing
  apply (simp add: zip_open_archive_def zip_is_archive_def strcasecmp_custom_zero_iff
      c_str_Cons NUL_def to_lower_def unzOpen_def push_back_def opened_world_def
      opened_handle_def)
  apply (simp add: fixture_world_def fixture_handle_def c_str_Cons NUL_def push_back_def)
  done

section \<open>Extractor: facts\<close>

text \<open>A read that answers the requested count has filled the whole buffer.\<close>

lemma unzReadCurrentFile_full:
  assumes "unzReadCurrentFile uf cur (replicate n None) n = (r, buf)" "r = int n"
  shows "\<exists>bs. cur < length uf \<and> payload (uf ! cur) = Some bs \<and> n \<le> length bs
            \<and> buf = map Some (take n bs)"
proof -
  from assms have c: "cur < length uf"
    by (auto simp: unzReadCurrentFile_def split: if_splits)
  from assms c obtain bs where bs: "payload (uf ! cur) = Some bs"
    by (cases "payload (uf ! cur)") (auto simp: unzReadCurrentFile_def)
  from assms c bs have k: "min n (length bs) = n"
    and b: "buf = map Some (take (min n (length bs)) bs)
                    @ drop (min n (length bs)) (replicate n None)"
    by (auto simp: unzReadCurrentFile_def Let_def)
  from k have "n \<le> length bs" by simp
  moreover from b k have "buf = map Some (take n bs)" by simp
  ultimately show ?thesis using c bs by blast
qed

text \<open>The three ways in which \<open>zip_extract_file_internal\<close> returns.\<close>

lemma extract_internal_cases:
  "zip_extract_file_internal w archive fname data sizep = Inr (ok, d, s) \<Longrightarrow>
   (\<not> ok \<and> d = data \<and> s = sizep
      \<and> (archive = None \<or> fname = None \<or> data = None \<or> sizep = None
          \<or> (\<exists>a h. archive = Some a \<and> heap w a = Some h \<and> \<not> is_open h)))
   \<or> (\<not> ok \<and> d = Some None \<and> s = Some 0 \<and> data \<noteq> None \<and> sizep \<noteq> None)
   \<or> (ok \<and> data \<noteq> None \<and> sizep \<noteq> None
       \<and> (\<exists>a h uf f cur stored fi bs.
             archive = Some a \<and> heap w a = Some h \<and> is_open h \<and> handle h = Some uf
             \<and> fname = Some f \<and> unzLocateFile uf f = Some cur
             \<and> unzGetCurrentFileInfo uf cur = Some (stored, fi)
             \<and> unzOpenCurrentFile uf cur
             \<and> payload (uf ! cur) = Some bs
             \<and> 0 \<le> declared_size fi \<and> nat (declared_size fi) \<le> length bs
             \<and> d = Some (Some (map Some (take (nat (declared_size fi)) bs)))
             \<and> s = Some (declared_size fi)))"
  apply (simp add: zip_extract_file_internal_def declared_size_def Let_def
       split: option.splits if_splits prod.splits)
  apply (auto dest!: unzReadCurrentFile_full)
  done

lemma extract_internal_mismatch:
  assumes "heap w a = Some h" "is_open h" "handle h = Some uf"
    and "unzLocateFile uf f = Some cur"
    and "unzGetCurrentFileInfo uf cur = Some (stored, fi)"
    and "unzOpenCurrentFile uf cur"
    and "0 \<le> declared_size fi"
    and "fst (unzReadCurrentFile uf cur (replicate (nat (declared_size fi)) None)
               (nat (declared_size fi))) \<noteq> declared_size fi"
  shows "zip_extract_file_internal w (Some a) (Some f) (Some d0) (Some s0)
           = Inr (False, Some None, Some 0)"
  using assms
  by (auto simp: zip_extract_file_internal_def declared_size_def Let_def split: prod.splits)

text \<open>
  C1, as the claim states it, at a null handle: the call fails, and the caller's \<open>*data\<close>
  and \<open>*size\<close>, which were not null and not 0 before the call, are as they were.
\<close>

theorem extract_guard_leaves_outputs_counterexample:
  "zip_extract_file fixture_world None (Some ''data/game.crt'') (Some (Some [Some 9])) (Some 5)
     = Inr (0, Some (Some [Some 9]), Some 5)
   \<and> Some (Some [Some (9 :: byte)]) \<noteq> Some None
   \<and> Some (5 :: int) \<noteq> Some 0"
  by (simp add: zip_extract_file_def zip_extract_file_internal_def)

text \<open>
  C1, amended. Whenever \<open>zip_extract_file\<close> returns, one of three things happened. It
  answers 0 and \<open>*data\<close> and \<open>*size\<close> are as the caller had them: the handle is null or
  closed or the name is null, and the guard returned before the outputs were written. Or
  it answers 0 and \<open>*data\<close> is null and \<open>*size\<close> is 0. Or it answers 1, \<open>*size\<close> is the
  declared uncompressed size of the located entry, and \<open>*data\<close> is a buffer of exactly
  that many cells, every one of them written with the entry's bytes. And whenever the
  codec's read count differs from the declared size, the call answers 0 with \<open>*data\<close> null
  and \<open>*size\<close> 0.
\<close>

theorem extract_all_or_nothing:
  "(zip_extract_file w archive fname (Some d0) (Some s0) = Inr (r, d, s) \<longrightarrow>
      (r = 0 \<and> d = Some d0 \<and> s = Some s0
         \<and> (archive = None \<or> fname = None
             \<or> (\<exists>a h. archive = Some a \<and> heap w a = Some h \<and> \<not> is_open h)))
      \<or> (r = 0 \<and> d = Some None \<and> s = Some 0)
      \<or> (r = 1
          \<and> (\<exists>a h uf f cur stored fi buf.
                archive = Some a \<and> heap w a = Some h \<and> is_open h \<and> handle h = Some uf
                \<and> fname = Some f \<and> unzLocateFile uf f = Some cur
                \<and> unzGetCurrentFileInfo uf cur = Some (stored, fi)
                \<and> s = Some (declared_size fi)
                \<and> d = Some (Some buf)
                \<and> int (length buf) = declared_size fi
                \<and> list_all (\<lambda>cell. cell \<noteq> None) buf
                \<and> those buf = map_option (take (length buf)) (payload (uf ! cur)))))
   \<and> (heap w a = Some h \<and> is_open h \<and> handle h = Some uf
        \<and> unzLocateFile uf f = Some cur
        \<and> unzGetCurrentFileInfo uf cur = Some (stored, fi)
        \<and> unzOpenCurrentFile uf cur
        \<and> 0 \<le> declared_size fi
        \<and> fst (unzReadCurrentFile uf cur (replicate (nat (declared_size fi)) None)
                 (nat (declared_size fi))) \<noteq> declared_size fi
      \<longrightarrow> zip_extract_file w (Some a) (Some f) (Some d0) (Some s0)
            = Inr (0, Some None, Some 0))"
proof (intro conjI impI)
  assume "zip_extract_file w archive fname (Some d0) (Some s0) = Inr (r, d, s)"
  then obtain ok where i: "zip_extract_file_internal w archive fname (Some d0) (Some s0)
        = Inr (ok, d, s)" and r: "r = (if ok then 1 else 0)"
    by (auto simp: zip_extract_file_def split: sum.splits)
  have filled: "list_all (\<lambda>cell. cell \<noteq> None) (map Some xs)" for xs :: "byte list"
    by (induction xs) simp_all
  have those_map: "those (map Some xs) = Some xs" for xs :: "byte list"
    by (induction xs) simp_all
  from extract_internal_cases [OF i] r
  show "(r = 0 \<and> d = Some d0 \<and> s = Some s0
         \<and> (archive = None \<or> fname = None
             \<or> (\<exists>a h. archive = Some a \<and> heap w a = Some h \<and> \<not> is_open h)))
      \<or> (r = 0 \<and> d = Some None \<and> s = Some 0)
      \<or> (r = 1
          \<and> (\<exists>a h uf f cur stored fi buf.
                archive = Some a \<and> heap w a = Some h \<and> is_open h \<and> handle h = Some uf
                \<and> fname = Some f \<and> unzLocateFile uf f = Some cur
                \<and> unzGetCurrentFileInfo uf cur = Some (stored, fi)
                \<and> s = Some (declared_size fi)
                \<and> d = Some (Some buf)
                \<and> int (length buf) = declared_size fi
                \<and> list_all (\<lambda>cell. cell \<noteq> None) buf
                \<and> those buf = map_option (take (length buf)) (payload (uf ! cur))))"
  proof (elim disjE conjE exE)
    fix a h uf f cur stored fi bs
    assume ok and "archive = Some a" "heap w a = Some h" "is_open h" "handle h = Some uf"
      "fname = Some f" "unzLocateFile uf f = Some cur"
      "unzGetCurrentFileInfo uf cur = Some (stored, fi)"
      "payload (uf ! cur) = Some bs" "0 \<le> declared_size fi"
      "nat (declared_size fi) \<le> length bs"
      "d = Some (Some (map Some (take (nat (declared_size fi)) bs)))"
      "s = Some (declared_size fi)"
    then show ?thesis using r filled those_map
      by (intro disjI2) (simp add: min_absorb2)
  qed (use r in auto)
next
  assume "heap w a = Some h \<and> is_open h \<and> handle h = Some uf
        \<and> unzLocateFile uf f = Some cur
        \<and> unzGetCurrentFileInfo uf cur = Some (stored, fi)
        \<and> unzOpenCurrentFile uf cur
        \<and> 0 \<le> declared_size fi
        \<and> fst (unzReadCurrentFile uf cur (replicate (nat (declared_size fi)) None)
                 (nat (declared_size fi))) \<noteq> declared_size fi"
  then have "zip_extract_file_internal w (Some a) (Some f) (Some d0) (Some s0)
           = Inr (False, Some None, Some 0)"
    using extract_internal_mismatch [of w a h uf f cur stored fi d0 s0] by blast
  then show "zip_extract_file w (Some a) (Some f) (Some d0) (Some s0)
            = Inr (0, Some None, Some 0)"
    by (simp add: zip_extract_file_def)
qed

theorem extract_all_or_nothing_witness:
  "zip_extract_file opened_world (Some 0) (Some ''data/game.crt'') (Some None) (Some 0)
     = Inr (1, Some (Some [Some 1, Some 2, Some 3]), Some 3)
   \<and> unzGetCurrentFileInfo fixture_dir 3
       = Some (''data/game.crt'', \<lparr>info_uncompressed_size = 3, info_compressed_size = 2\<rparr>)
   \<and> declared_size \<lparr>info_uncompressed_size = 3, info_compressed_size = 2\<rparr> = 3
   \<and> unzGetCurrentFileInfo fixture_dir 2
       = Some (''data/short.D64'', \<lparr>info_uncompressed_size = 4, info_compressed_size = 2\<rparr>)
   \<and> declared_size \<lparr>info_uncompressed_size = 4, info_compressed_size = 2\<rparr> = 4
   \<and> fst (unzReadCurrentFile fixture_dir 2 (replicate 4 None) 4) = 3
   \<and> zip_extract_file opened_world (Some 0) (Some ''data/short.D64'')
        (Some (Some [Some 9])) (Some 5)
     = Inr (0, Some None, Some 0)"
proof -
  let ?short = "\<lparr>info_uncompressed_size = 4, info_compressed_size = 2 :: uLong\<rparr>"
  have g: "zip_extract_file opened_world (Some 0) (Some ''data/game.crt'') (Some None) (Some 0)
     = Inr (1, Some (Some [Some 1, Some 2, Some 3]), Some 3)"
    by (simp add: zip_extract_file_def zip_extract_file_internal_def fixture_defs codec_defs)
  have h: "heap opened_world 0 = Some opened_handle" "is_open opened_handle"
    "handle opened_handle = Some fixture_dir"
    by (simp_all add: fixture_defs)
  have l: "unzLocateFile fixture_dir ''data/short.D64'' = Some 2"
    by (simp add: fixture_dir_def codec_defs)
  have i: "unzGetCurrentFileInfo fixture_dir 2 = Some (''data/short.D64'', ?short)"
    "unzGetCurrentFileInfo fixture_dir 3
       = Some (''data/game.crt'', \<lparr>info_uncompressed_size = 3, info_compressed_size = 2\<rparr>)"
    by (simp_all add: fixture_dir_def codec_defs)
  have o: "unzOpenCurrentFile fixture_dir 2"
    by (simp add: fixture_dir_def codec_defs)
  have d: "declared_size ?short = 4"
    "declared_size \<lparr>info_uncompressed_size = 3, info_compressed_size = 2\<rparr> = 3"
    by (simp_all add: declared_size_def)
  have r: "fst (unzReadCurrentFile fixture_dir 2 (replicate 4 None) 4) = 3"
    by (simp add: fixture_dir_def codec_defs)
  have "zip_extract_file opened_world (Some 0) (Some ''data/short.D64'')
        (Some (Some [Some 9])) (Some 5) = Inr (0, Some None, Some 0)"
    using extract_all_or_nothing [where w = opened_world and a = 0 and h = opened_handle
        and uf = fixture_dir and f = "''data/short.D64''" and cur = 2
        and stored = "''data/short.D64''" and fi = ?short
        and ?d0.0 = "Some [Some 9]" and ?s0.0 = 5]
      h l i o d r
    by simp
  then show ?thesis using g i d r by simp
qed

section \<open>ROM locator: facts\<close>

lemma c_str_idem [simp]: "c_str (c_str s) = c_str s"
  by (induction s) (simp_all add: c_str_Cons)

lemma suffix_from_last_Nil [simp]: "suffix_from_last c [] = None"
  by (simp add: suffix_from_last_def)

lemma suffix_from_last_Cons:
  "suffix_from_last c (x # t) =
     (case suffix_from_last c t of
        Some r \<Rightarrow> Some r
      | None \<Rightarrow> if x = c then Some (x # t) else None)"
proof (cases "c \<in> set t")
  case True
  then have "takeWhile (\<lambda>x. x \<noteq> c) (rev t @ [x]) = takeWhile (\<lambda>x. x \<noteq> c) (rev t)"
    by (intro takeWhile_append1 [where x = c]) simp_all
  then show ?thesis using True by (simp add: suffix_from_last_def)
next
  case False
  then have "takeWhile (\<lambda>x. x \<noteq> c) (rev t @ [x]) = rev t @ takeWhile (\<lambda>x. x \<noteq> c) [x]"
    by (intro takeWhile_append2) auto
  then show ?thesis using False by (auto simp: suffix_from_last_def)
qed

text \<open>What \<open>strrchr\<close> points at, read as a C string, is the suffix from the last occurrence.\<close>

lemma strrchr_c_str:
  "c \<noteq> NUL \<Longrightarrow> map_option c_str (strrchr s c) = suffix_from_last c (c_str s)"
proof (induction s)
  case Nil
  then show ?case by simp
next
  case (Cons x xs)
  show ?case
  proof (cases "x = NUL")
    case True
    then show ?thesis by (simp add: c_str_Cons)
  next
    case False
    show ?thesis
    proof (cases "strrchr xs c")
      case None
      then have "suffix_from_last c (c_str xs) = None" using Cons by simp
      then show ?thesis using None False
        by (simp add: c_str_Cons suffix_from_last_Cons)
    next
      case (Some r)
      then have "suffix_from_last c (c_str xs) = Some (c_str r)" using Cons by simp
      then show ?thesis using Some False
        by (simp add: c_str_Cons suffix_from_last_Cons)
    qed
  qed
qed

lemma match_extension_ci:
  "match_extension ext exts = list_ex (\<lambda>x. ci_equal (c_str ext) (c_str x)) exts"
  by (induction exts) (simp_all add: strcasecmp_custom_zero_iff ci_equal_def)

lemma dot_not_NUL: "CHR ''.'' \<noteq> NUL"
  by (simp add: NUL_def)

text \<open>The loop over the catalog answers the first entry that qualifies.\<close>

lemma find_rom_loop_find:
  "find_rom_loop es supplied =
     map_option filename (List.find (is_wanted (wanted_extensions supplied)) es)"
proof (induction es)
  case Nil
  show ?case by simp
next
  case (Cons entry rest)
  show ?case
  proof (cases "is_directory entry")
    case True
    then show ?thesis using Cons by (simp add: is_wanted_def)
  next
    case False
    have sfx: "map_option c_str (strrchr (c_str (filename entry)) (CHR ''.''))
        = suffix_from_last (CHR ''.'') (c_str (filename entry))"
      using strrchr_c_str [OF dot_not_NUL, of "c_str (filename entry)"] by simp
    show ?thesis
    proof (cases "strrchr (c_str (filename entry)) (CHR ''.'')")
      case None
      then have "suffix_from_last (CHR ''.'') (c_str (filename entry)) = None"
        using sfx by simp
      then show ?thesis using None False Cons by (simp add: is_wanted_def)
    next
      case found: (Some ext)
      then have s: "suffix_from_last (CHR ''.'') (c_str (filename entry)) = Some (c_str ext)"
        using sfx by simp
      have w: "is_wanted (wanted_extensions supplied) entry
          = match_extension ext (wanted_extensions supplied)"
        using False s by (simp add: is_wanted_def match_extension_ci)
      show ?thesis
      proof (cases supplied)
        case None
        then show ?thesis using found False Cons w
          by (simp add: zip_is_supported_extension_internal_def wanted_extensions_def)
      next
        case (Some exts)
        then show ?thesis using found False Cons w
          by (simp add: wanted_extensions_def)
      qed
    qed
  qed
qed

lemma is_wanted_set:
  "set xs = set ys \<Longrightarrow> is_wanted xs = is_wanted ys"
  by (rule ext) (simp add: is_wanted_def list_ex_iff split: option.splits)

text \<open>
  C3. For every open handle and every extension list, supplied or not,
  \<open>zip_find_rom_in_archive\<close> answers the name of the first entry, in catalog order, that is
  not a directory and whose \<open>.\<close>-delimited suffix equals, case-insensitively, some element
  of the list in force; it fails, leaving \<open>rom_filename\<close> as it was, exactly when no entry
  qualifies. The order of the extension list does not matter: two lists with the same
  elements give the same answer.
\<close>

theorem find_rom_first_in_catalog_order:
  assumes "heap w a = Some h" "is_open h"
  shows "zip_find_rom_in_archive w (Some a) supplied r0 =
           Inr (case List.find (is_wanted (wanted_extensions supplied)) (entries h) of
                  None \<Rightarrow> (False, r0)
                | Some entry \<Rightarrow> (True, filename entry))
         \<and> (\<forall>xs ys. set xs = set ys \<longrightarrow>
               zip_find_rom_in_archive w (Some a) (Some xs) r0
                 = zip_find_rom_in_archive w (Some a) (Some ys) r0)"
proof -
  have f: "\<And>supplied. zip_find_rom_in_archive w (Some a) supplied r0 =
           Inr (case List.find (is_wanted (wanted_extensions supplied)) (entries h) of
                  None \<Rightarrow> (False, r0)
                | Some entry \<Rightarrow> (True, filename entry))"
    using assms by (simp add: zip_find_rom_in_archive_def find_rom_loop_find split: option.splits)
  have "zip_find_rom_in_archive w (Some a) (Some xs) r0
            = zip_find_rom_in_archive w (Some a) (Some ys) r0"
    if "set xs = set ys" for xs ys
  proof -
    from that have "is_wanted xs = is_wanted ys" by (rule is_wanted_set)
    then show ?thesis by (simp add: f wanted_extensions_def)
  qed
  then show ?thesis using f by blast
qed

theorem find_rom_first_in_catalog_order_witness:
  "heap opened_world 0 = Some opened_handle \<and> is_open opened_handle
   \<and> map filename (entries opened_handle) = [''data/'', ''data/short.D64'', ''data/game.crt'']
   \<and> zip_find_rom_in_archive opened_world (Some 0) (Some [''.crt'', ''.d64'']) []
       = Inr (True, ''data/short.D64'')
   \<and> zip_find_rom_in_archive opened_world (Some 0) (Some [''.d64'', ''.crt'']) []
       = Inr (True, ''data/short.D64'')
   \<and> zip_find_rom_in_archive opened_world (Some 0) (Some [''.CRT'']) []
       = Inr (True, ''data/game.crt'')
   \<and> zip_find_rom_in_archive opened_world (Some 0) None []
       = Inr (True, ''data/short.D64'')
   \<and> zip_find_rom_in_archive opened_world (Some 0) (Some [''.txt'']) ''before''
       = Inr (False, ''before'')"
proof -
  have h: "heap opened_world 0 = Some opened_handle" "is_open opened_handle"
    by (simp_all add: fixture_defs)
  have e: "entries opened_handle = fixture_catalog" by (simp add: opened_handle_def)
  note t = find_rom_first_in_catalog_order [OF h, THEN conjunct1]
  have 1: "zip_find_rom_in_archive opened_world (Some 0) (Some [''.crt'', ''.d64'']) []
       = Inr (True, ''data/short.D64'')"
    by (simp only: t [of "Some [''.crt'', ''.d64'']" "[]"]) code_simp
  have 2: "zip_find_rom_in_archive opened_world (Some 0) (Some [''.d64'', ''.crt'']) []
       = Inr (True, ''data/short.D64'')"
    by (simp only: t [of "Some [''.d64'', ''.crt'']" "[]"]) code_simp
  have 3: "zip_find_rom_in_archive opened_world (Some 0) (Some [''.CRT'']) []
       = Inr (True, ''data/game.crt'')"
    by (simp only: t [of "Some [''.CRT'']" "[]"]) code_simp
  have 4: "zip_find_rom_in_archive opened_world (Some 0) None []
       = Inr (True, ''data/short.D64'')"
    by (simp only: t [of None "[]"]) code_simp
  have 5: "zip_find_rom_in_archive opened_world (Some 0) (Some [''.txt'']) ''before''
       = Inr (False, ''before'')"
    by (simp only: t [of "Some [''.txt'']" "''before''"]) code_simp
  show ?thesis using h 1 2 3 4 5 by (simp add: e fixture_catalog_def)
qed

section \<open>Scratch paths: facts\<close>

lemma c_str_NUL_free: "NUL \<notin> set (c_str s)"
  by (induction s) (simp_all add: c_str_Cons)

lemma c_str_id: "NUL \<notin> set s \<Longrightarrow> c_str s = s"
  by (induction s) (auto simp: c_str_Cons)

lemma slash_not_NUL: "CHR ''/'' \<noteq> NUL"
  by (simp add: NUL_def)

lemma base_filename_c_str:
  "c_str (case strrchr f (CHR ''/'') of Some r \<Rightarrow> tl r | None \<Rightarrow> f) = base_name (c_str f)"
proof (cases "strrchr f (CHR ''/'')")
  case None
  then have "suffix_from_last (CHR ''/'') (c_str f) = None"
    using strrchr_c_str [OF slash_not_NUL, of f] by simp
  then have "CHR ''/'' \<notin> set (c_str f)"
    by (simp add: suffix_from_last_def split: if_splits)
  then have "\<forall>x\<in>set (rev (c_str f)). x \<noteq> CHR ''/''" by auto
  then have "takeWhile (\<lambda>c. c \<noteq> CHR ''/'') (rev (c_str f)) = rev (c_str f)"
    by (rule takeWhile_eq_all_conv [THEN iffD2])
  then have "base_name (c_str f) = c_str f"
    by (simp only: base_name_def rev_rev_ident)
  then show ?thesis using None by simp
next
  case (Some r)
  then have s: "suffix_from_last (CHR ''/'') (c_str f) = Some (c_str r)"
    using strrchr_c_str [OF slash_not_NUL, of f] by simp
  then have c: "c_str r = CHR ''/'' # base_name (c_str f)"
    by (simp add: suffix_from_last_def base_name_def split: if_splits)
  then obtain x r' where r: "r = x # r'" by (cases r) simp_all
  with c have "x \<noteq> NUL" "c_str r' = base_name (c_str f)"
    by (simp_all add: c_str_Cons split: if_splits)
  then show ?thesis using Some r by simp
qed

lemma of_char_digit_char: "d < 10 \<Longrightarrow> of_char (digit_char d) = 48 + d"
  by (simp add: digit_char_def)

lemma digits_chars: "c \<in> set (digits n) \<Longrightarrow> 48 \<le> (of_char c :: nat) \<and> (of_char c :: nat) \<le> 57"
proof (induction n rule: digits.induct)
  case (1 n)
  show ?case
  proof (cases "n < 10")
    case True
    then have "c = digit_char n" using "1.prems" by (subst (asm) digits.simps) simp
    then show ?thesis using True of_char_digit_char [of n] by simp
  next
    case False
    then have "c \<in> set (digits (n div 10)) \<or> c = digit_char (n mod 10)"
      using "1.prems" by (subst (asm) digits.simps) auto
    then show ?thesis
    proof
      assume "c \<in> set (digits (n div 10))"
      then show ?thesis using "1.IH" False by simp
    next
      assume "c = digit_char (n mod 10)"
      then show ?thesis using of_char_digit_char [of "n mod 10"] by simp
    qed
  qed
qed

lemma digits_unfold_small: "n < 10 \<Longrightarrow> digits n = [digit_char n]"
  by (subst digits.simps) simp

lemma digits_unfold_large:
  "\<not> n < 10 \<Longrightarrow> digits n = digits (n div 10) @ [digit_char (n mod 10)]"
  by (subst digits.simps) simp

lemma digits_value_snoc:
  "digits_value (xs @ [c]) = 10 * digits_value xs + (of_char c - 48)"
  by (simp add: digits_value_def)

lemma digits_value_digits: "digits_value (digits n) = n"
proof (induction n rule: digits.induct)
  case (1 n)
  show ?case
  proof (cases "n < 10")
    case True
    then have "digits_value (digits n) = of_char (digit_char n) - 48"
      using digits_value_snoc [of "[]" "digit_char n"]
      by (simp add: digits_unfold_small digits_value_def)
    then show ?thesis using True by (simp add: of_char_digit_char)
  next
    case False
    then have ih: "digits_value (digits (n div 10)) = n div 10" using "1.IH" by simp
    have "digits_value (digits n)
        = 10 * digits_value (digits (n div 10)) + (of_char (digit_char (n mod 10)) - 48)"
      by (simp only: digits_unfold_large [OF False] digits_value_snoc)
    also have "\<dots> = 10 * (n div 10) + n mod 10"
      by (simp only: ih) (simp add: of_char_digit_char)
    finally show ?thesis by simp
  qed
qed

lemma digits_inj: "digits n = digits m \<Longrightarrow> n = m"
  by (metis digits_value_digits)

lemma digits_nonempty: "digits n \<noteq> []"
  by (subst digits.simps) simp

lemma to_string_chars:
  "c \<in> set (to_string i) \<Longrightarrow> c = CHR ''-'' \<or> (48 \<le> (of_char c :: nat) \<and> (of_char c :: nat) \<le> 57)"
  using digits_chars by (auto simp: to_string_def split: if_splits)

lemma to_string_inj: "to_string i = to_string j \<Longrightarrow> i = j"
proof -
  assume e: "to_string i = to_string j"
  have neg: "CHR ''-'' # digits a \<noteq> digits b" for a b
  proof
    assume "CHR ''-'' # digits a = digits b"
    then have "CHR ''-'' \<in> set (digits b)" by (metis list.set_intros(1))
    then show False using digits_chars [of "CHR ''-''" b] by simp
  qed
  show ?thesis
  proof (cases "i < 0")
    case True
    show ?thesis
    proof (cases "j < 0")
      case jn: True
      then have "nat (- i) = nat (- j)" using e True digits_inj by (simp add: to_string_def)
      then show ?thesis using True jn by simp
    next
      case False
      then show ?thesis using e True neg [of "nat (- i)" "nat j"] by (simp add: to_string_def)
    qed
  next
    case False
    show ?thesis
    proof (cases "j < 0")
      case True
      then show ?thesis using e False neg [of "nat (- j)" "nat i"] by (auto simp: to_string_def)
    next
      case jp: False
      then have "nat i = nat j" using e False digits_inj by (simp add: to_string_def)
      then show ?thesis using False jp by simp
    qed
  qed
qed

lemma to_string_NUL_free: "NUL \<notin> set (to_string i)"
  using to_string_chars [of NUL i] by (auto simp: NUL_def)

lemma to_string_no_underscore: "CHR ''_'' \<notin> set (to_string i)"
  using to_string_chars [of "CHR ''_''" i] by auto

lemma scratch_path_NUL_free: "NUL \<notin> set (scratch_path c (c_str f))"
proof -
  have "NUL \<notin> set (base_name (c_str f))"
    using c_str_NUL_free [of f] set_takeWhileD [of NUL "\<lambda>c. c \<noteq> CHR ''/''" "rev (c_str f)"]
    by (auto simp: base_name_def)
  then show ?thesis using to_string_NUL_free [of c]
    by (auto simp: scratch_path_def TEMP_DIR_def NUL_def)
qed

lemma scratch_path_inj:
  assumes "scratch_path c1 n1 = scratch_path c2 n2"
  shows "c1 = c2"
proof -
  let ?P = "\<lambda>c. c \<noteq> CHR ''_''"
  from assms have e: "to_string c1 @ CHR ''_'' # base_name n1 = to_string c2 @ CHR ''_'' # base_name n2"
    by (simp add: scratch_path_def)
  have t: "takeWhile ?P (to_string c @ CHR ''_'' # r) = to_string c" for c r
  proof -
    have "takeWhile ?P (to_string c @ CHR ''_'' # r) = to_string c @ takeWhile ?P (CHR ''_'' # r)"
      using to_string_no_underscore [of c] by (intro takeWhile_append2) auto
    then show ?thesis by simp
  qed
  from e have "takeWhile ?P (to_string c1 @ CHR ''_'' # base_name n1)
      = takeWhile ?P (to_string c2 @ CHR ''_'' # base_name n2)" by simp
  then have "to_string c1 = to_string c2" by (simp only: t)
  then show ?thesis by (rule to_string_inj)
qed

section \<open>Scratch-file writer: facts\<close>

lemma those_map_Some: "those (map Some xs) = Some xs"
  by (induction xs) simp_all

lemma sceIoWrite_filled:
  "sceIoWrite w fd (map Some xs) n =
     Inr (sceIoWrite_env w fd n,
          w\<lparr>files := (files w)(fd := Some (take (min (nat (sceIoWrite_env w fd n)) n) xs))\<rparr>)"
  by (simp add: sceIoWrite_def Let_def take_map those_map_Some)

lemma to_temp_internal_success:
  assumes "zip_extract_file_to_temp_internal w archive fname tp = Inr (True, p, w')"
  shows "\<exists>a h uf f cur stored fi bs.
           archive = Some a \<and> heap w a = Some h \<and> is_open h \<and> handle h = Some uf
           \<and> fname = Some f \<and> unzLocateFile uf f = Some cur
           \<and> unzGetCurrentFileInfo uf cur = Some (stored, fi)
           \<and> payload (uf ! cur) = Some bs
           \<and> 0 \<le> declared_size fi \<and> nat (declared_size fi) \<le> length bs
           \<and> temp_counter w \<noteq> INT_MAX
           \<and> temp_counter w' = temp_counter w + 1
           \<and> p = scratch_path (temp_counter w + 1) (c_str f)
           \<and> files w' = (files w)(p := Some (take (nat (declared_size fi)) bs))
           \<and> heap w' = heap w \<and> g_open_archives w' = g_open_archives w"
proof -
  from assms obtain dc sc where
    e: "zip_extract_file_internal w archive fname (Some None) (Some 0) = Inr (True, dc, sc)"
    by (auto simp: zip_extract_file_to_temp_internal_def split: sum.splits if_splits)
  from extract_internal_cases [OF e] obtain a h uf f cur stored fi bs where
    x: "archive = Some a" "heap w a = Some h" "is_open h" "handle h = Some uf"
       "fname = Some f" "unzLocateFile uf f = Some cur"
       "unzGetCurrentFileInfo uf cur = Some (stored, fi)"
       "payload (uf ! cur) = Some bs"
       "0 \<le> declared_size fi" "nat (declared_size fi) \<le> length bs"
    and d: "dc = Some (Some (map Some (take (nat (declared_size fi)) bs)))"
    and s: "sc = Some (declared_size fi)"
    by auto
  let ?p = "scratch_path (temp_counter w + 1) (c_str f)"
  have cp: "c_str ?p = ?p" by (rule c_str_id) (rule scratch_path_NUL_free)
  have pe: "zip_get_temp_dir @ ''temp_'' @ to_string (temp_counter w + 1) @ ''_''
             @ c_str (case strrchr f (CHR ''/'') of Some r \<Rightarrow> tl r | None \<Rightarrow> f) = ?p"
    by (simp add: scratch_path_def zip_get_temp_dir_def base_filename_c_str)
  have pe': "zip_get_temp_dir @ CHR ''t'' # CHR ''e'' # CHR ''m'' # CHR ''p'' # CHR ''_'' #
             to_string (temp_counter w + 1) @ CHR ''_'' #
             c_str (case strrchr f (CHR ''/'') of None \<Rightarrow> f | Some r \<Rightarrow> tl r) = ?p"
    using pe by simp
  have m: "temp_counter (sceIoMkdir w d) = temp_counter w"
      "files (sceIoMkdir w d) = files w" "heap (sceIoMkdir w d) = heap w"
      "g_open_archives (sceIoMkdir w d) = g_open_archives w"
      "sceIoOpen_env (sceIoMkdir w d) = sceIoOpen_env w"
      "sceIoWrite_env (sceIoMkdir w d) = sceIoWrite_env w" for d
    by (simp_all add: sceIoMkdir_def)
  have e': "zip_extract_file_internal w (Some a) (Some f) (Some None) (Some 0)
      = Inr (True, Some (Some (map Some (take (nat (declared_size fi)) bs))),
             Some (declared_size fi))"
    using e x d s by simp
  have "zip_extract_file_to_temp_internal w (Some a) (Some f) tp = Inr (True, p, w')"
    using assms x by simp
  then have "temp_counter w \<noteq> INT_MAX \<and> temp_counter w' = temp_counter w + 1 \<and> p = ?p
      \<and> files w' = (files w)(p := Some (take (nat (declared_size fi)) bs))
      \<and> heap w' = heap w \<and> g_open_archives w' = g_open_archives w"
    using x(9,10)
    by (auto simp: zip_extract_file_to_temp_internal_def e' Let_def pe' cp m
        sceIoOpen_def sceIoWrite_filled split: if_splits)
  then show ?thesis using x by blast
qed

lemma to_temp_internal_path:
  assumes "zip_extract_file_to_temp_internal w archive fname tp = Inr (True, p, w')"
  shows "c_str p = p"
proof -
  from to_temp_internal_success [OF assms] obtain f where
    "p = scratch_path (temp_counter w + 1) (c_str f)" by blast
  then show ?thesis using scratch_path_NUL_free c_str_id by simp
qed

lemma rom_to_temp_success:
  assumes "zip_extract_rom_to_temp w zip_path supplied tp = Inr (True, p, w')"
  shows "\<exists>w1 archive name w2.
           zip_extract_file_to_temp_internal w1 archive (Some name) tp = Inr (True, p, w2)"
  using assms
  by (auto simp: zip_extract_rom_to_temp_def split: sum.splits if_splits prod.splits)

lemma rom_to_temp_path:
  assumes "zip_extract_rom_to_temp w zip_path supplied tp = Inr (True, p, w')"
  shows "c_str p = p"
  using rom_to_temp_success [OF assms] to_temp_internal_path by blast

text \<open>
  C6. \<open>zip_extract_file_to_temp_c\<close> and \<open>zip_extract_rom_to_temp_c\<close> answer 1 or 0. They
  answer 1 only when the extraction succeeded and the length of the composed scratch path
  is strictly less than \<open>buffer_size\<close>, and then the path is what \<open>strcpy\<close> left in the
  buffer; when they answer 0 the buffer is as before. Whenever the composed path together
  with its terminating NUL does not fit in \<open>buffer_size\<close>, they answer 0.
\<close>

theorem scratch_path_must_fit_buffer:
  "(zip_extract_file_to_temp_c w archive fname out n = Inr (r, out', w') \<longrightarrow>
      (r = 1 \<and> out \<noteq> None
         \<and> (\<exists>p. zip_extract_file_to_temp_internal w archive fname [] = Inr (True, p, w')
                \<and> length p < n \<and> out' = Some p))
      \<or> (r = 0 \<and> out' = out))
   \<and> (zip_extract_file_to_temp_internal w archive fname [] = Inr (ok, p, w')
        \<and> \<not> length p + 1 \<le> n \<longrightarrow>
      zip_extract_file_to_temp_c w archive fname out n = Inr (0, out, w'))
   \<and> (zip_extract_rom_to_temp_c w zip_path supplied out n = Inr (r, out', w') \<longrightarrow>
      (r = 1 \<and> out \<noteq> None
         \<and> (\<exists>p. zip_extract_rom_to_temp w zip_path supplied [] = Inr (True, p, w')
                \<and> length p < n \<and> out' = Some p))
      \<or> (r = 0 \<and> out' = out))
   \<and> (zip_extract_rom_to_temp w zip_path supplied [] = Inr (ok, p, w')
        \<and> \<not> length p + 1 \<le> n \<longrightarrow>
      zip_extract_rom_to_temp_c w zip_path supplied out n = Inr (0, out, w'))"
proof (intro conjI impI)
  assume a: "zip_extract_file_to_temp_c w archive fname out n = Inr (r, out', w')"
  then obtain res p where i: "zip_extract_file_to_temp_internal w archive fname [] = Inr (res, p, w')"
    by (auto simp: zip_extract_file_to_temp_c_def split: sum.splits if_splits option.splits)
  show "(r = 1 \<and> out \<noteq> None
         \<and> (\<exists>p. zip_extract_file_to_temp_internal w archive fname [] = Inr (True, p, w')
                \<and> length p < n \<and> out' = Some p))
      \<or> (r = 0 \<and> out' = out)"
  proof (cases "res \<and> length p < n")
    case True
    then have "c_str p = p"
      using i to_temp_internal_path [of w archive fname "[]" p w'] by simp
    then show ?thesis using a i True
      by (auto simp: zip_extract_file_to_temp_c_def split: option.splits)
  next
    case False
    then show ?thesis using a i
      by (auto simp: zip_extract_file_to_temp_c_def)
  qed
next
  assume "zip_extract_file_to_temp_internal w archive fname [] = Inr (ok, p, w')
        \<and> \<not> length p + 1 \<le> n"
  then show "zip_extract_file_to_temp_c w archive fname out n = Inr (0, out, w')"
    by (simp add: zip_extract_file_to_temp_c_def)
next
  assume a: "zip_extract_rom_to_temp_c w zip_path supplied out n = Inr (r, out', w')"
  then obtain res p where i: "zip_extract_rom_to_temp w zip_path supplied [] = Inr (res, p, w')"
    by (auto simp: zip_extract_rom_to_temp_c_def split: sum.splits if_splits option.splits)
  show "(r = 1 \<and> out \<noteq> None
         \<and> (\<exists>p. zip_extract_rom_to_temp w zip_path supplied [] = Inr (True, p, w')
                \<and> length p < n \<and> out' = Some p))
      \<or> (r = 0 \<and> out' = out)"
  proof (cases "res \<and> length p < n")
    case True
    then have "c_str p = p"
      using i rom_to_temp_path [of w zip_path supplied "[]" p w'] by simp
    then show ?thesis using a i True
      by (auto simp: zip_extract_rom_to_temp_c_def split: option.splits)
  next
    case False
    then show ?thesis using a i
      by (auto simp: zip_extract_rom_to_temp_c_def)
  qed
next
  assume "zip_extract_rom_to_temp w zip_path supplied [] = Inr (ok, p, w')
        \<and> \<not> length p + 1 \<le> n"
  then show "zip_extract_rom_to_temp_c w zip_path supplied out n = Inr (0, out, w')"
    by (simp add: zip_extract_rom_to_temp_c_def)
qed

lemma to_string_1: "to_string 1 = ''1''"
  by code_simp

lemma to_string_2: "to_string 2 = ''2''"
  by code_simp

lemma strrchr_game: "strrchr ''data/game.crt'' (CHR ''/'') = Some ''/game.crt''"
  by (simp add: NUL_def)

lemma fixture_extract_internal:
  "zip_extract_file_internal opened_world (Some 0) (Some ''data/game.crt'') (Some None) (Some 0)
     = Inr (True, Some (Some [Some 1, Some 2, Some 3]), Some 3)"
  by (simp add: zip_extract_file_internal_def fixture_defs codec_defs)

lemma fixture_extract_internal_again:
  "zip_extract_file_internal extracted_world (Some 0) (Some ''data/game.crt'') (Some None) (Some 0)
     = Inr (True, Some (Some [Some 1, Some 2, Some 3]), Some 3)"
  by (simp add: zip_extract_file_internal_def extracted_world_def fixture_defs codec_defs)

lemma opened_world_fields:
  "temp_counter opened_world = 0" "dirs opened_world = []"
  "sceIoOpen_env opened_world = (\<lambda>p. True)"
  "sceIoWrite_env opened_world = (\<lambda>p n. int n)"
  "files opened_world = (\<lambda>p. None)"
  by (simp_all add: fixture_defs)

lemma fixture_extract:
  "zip_extract_file_to_temp_internal opened_world (Some 0) (Some ''data/game.crt'') tp
     = Inr (True, ''ux0:temp/vicevita_zip/temp_1_game.crt'', extracted_world)"
  apply (simp add: zip_extract_file_to_temp_internal_def fixture_extract_internal strrchr_game
      zip_get_temp_dir_def TEMP_DIR_def INT_MAX_def to_string_1 sceIoMkdir_def sceIoOpen_def
      sceIoWrite_def Let_def c_str_Cons NUL_def opened_world_fields)
  apply (simp add: extracted_world_def opened_world_fields)
  done

lemma extracted_world_fields:
  "temp_counter extracted_world = 1" "dirs extracted_world = [''ux0:temp/vicevita_zip/'']"
  "sceIoOpen_env extracted_world = (\<lambda>p. True)"
  "sceIoWrite_env extracted_world = (\<lambda>p n. int n)"
  "files extracted_world = (\<lambda>p. None)(''ux0:temp/vicevita_zip/temp_1_game.crt'' := Some [1, 2, 3])"
  by (simp_all add: extracted_world_def fixture_defs)

lemma fixture_extract_again:
  "zip_extract_file_to_temp_internal extracted_world (Some 0) (Some ''data/game.crt'') tp
     = Inr (True, ''ux0:temp/vicevita_zip/temp_2_game.crt'', extracted_twice_world)"
  apply (simp add: zip_extract_file_to_temp_internal_def fixture_extract_internal_again
      strrchr_game zip_get_temp_dir_def TEMP_DIR_def INT_MAX_def to_string_2 sceIoMkdir_def
      sceIoOpen_def sceIoWrite_def Let_def c_str_Cons NUL_def extracted_world_fields)
  apply (simp add: extracted_twice_world_def extracted_world_fields)
  done

lemma open_keeps_scratch:
  "zip_open_archive w zp = Inr (a, w1) \<Longrightarrow>
     temp_counter w1 = temp_counter w \<and> files w1 = files w"
  by (auto simp: zip_open_archive_def Let_def split: option.splits if_splits sum.splits)

lemma close_keeps_scratch:
  "zip_close_archive w a = Inr w1 \<Longrightarrow>
     temp_counter w1 = temp_counter w \<and> files w1 = files w"
  by (auto simp: zip_close_archive_def Let_def split: option.splits if_splits)

lemma rom_to_temp_success_path:
  assumes "zip_extract_rom_to_temp w zip_path supplied tp = Inr (True, p, w')"
  shows "\<exists>name. p = scratch_path (temp_counter w') (c_str name)
            \<and> temp_counter w' = temp_counter w + 1 \<and> files w' p \<noteq> None"
proof -
  from assms obtain archive w1 name w2 where
    o: "zip_open_archive w zip_path = Inr (archive, w1)"
    and t: "zip_extract_file_to_temp_internal w1 archive (Some (c_str name)) tp = Inr (True, p, w2)"
    and c: "zip_close_archive w2 archive = Inr w'"
    by (auto simp: zip_extract_rom_to_temp_def split: sum.splits if_splits prod.splits)
  from to_temp_internal_success [OF t] have
    "p = scratch_path (temp_counter w1 + 1) (c_str name)"
    "temp_counter w2 = temp_counter w1 + 1" "files w2 p \<noteq> None"
    by auto
  then show ?thesis using open_keeps_scratch [OF o] close_keeps_scratch [OF c] by auto
qed

text \<open>No operation that changes the process state lowers \<open>temp_counter\<close>.\<close>

lemma sceIoMkdir_counter: "temp_counter (sceIoMkdir w d) = temp_counter w"
  by (simp add: sceIoMkdir_def)

lemma sceIoOpen_counter: "sceIoOpen w p = (fd, w') \<Longrightarrow> temp_counter w' = temp_counter w"
  by (auto simp: sceIoOpen_def split: if_splits)

lemma sceIoWrite_counter:
  "sceIoWrite w fd buf n = Inr (r, w') \<Longrightarrow> temp_counter w' = temp_counter w"
  by (auto simp: sceIoWrite_def Let_def split: option.splits)

lemma to_temp_internal_counter:
  assumes "zip_extract_file_to_temp_internal w archive fname tp = Inr (ok, p, w')"
  shows "temp_counter w \<le> temp_counter w'"
proof (cases "zip_extract_file_internal w archive fname (Some None) (Some 0)")
  case (Inl f)
  then show ?thesis using assms by (simp add: zip_extract_file_to_temp_internal_def)
next
  case (Inr res)
  obtain extracted dc sc where res: "res = (extracted, dc, sc)" by (cases res)
  show ?thesis
  proof (cases extracted)
    case False
    then show ?thesis using assms Inr res
      by (simp add: zip_extract_file_to_temp_internal_def)
  next
    case True
    then show ?thesis using assms Inr res
      by (auto simp: zip_extract_file_to_temp_internal_def Let_def sceIoMkdir_counter
          split: option.splits if_splits prod.splits sum.splits
          dest!: sceIoOpen_counter sceIoWrite_counter)
  qed
qed

lemma cleanup_loop_counter:
  "cleanup_loop w it e = Inr w' \<Longrightarrow> temp_counter w' = temp_counter w"
proof (induction w it e rule: cleanup_loop.induct)
  case (1 w it e)
  show ?case
  proof (cases "it < e")
    case False
    then show ?thesis using "1.prems" by (subst (asm) cleanup_loop.simps) simp
  next
    case True
    show ?thesis
    proof (cases "it < length (storage (g_open_archives w))")
      case False
      then show ?thesis using "1.prems" True by (subst (asm) cleanup_loop.simps) simp
    next
      case inb: True
      show ?thesis
      proof (cases "storage (g_open_archives w) ! it")
        case None
        then have "cleanup_loop w (Suc it) e = Inr w'"
          using "1.prems" True inb by (subst (asm) cleanup_loop.simps) simp
        then show ?thesis using "1.IH"(1) [OF True inb None] by simp
      next
        case (Some a)
        show ?thesis
        proof (cases "heap w a")
          case None
          then show ?thesis using "1.prems" True inb Some
            by (subst (asm) cleanup_loop.simps) simp
        next
          case h: (Some h)
          show ?thesis
          proof (cases "is_open h")
            case False
            then have "cleanup_loop w (Suc it) e = Inr w'"
              using "1.prems" True inb Some h by (subst (asm) cleanup_loop.simps) simp
            then show ?thesis using "1.IH"(3) [OF True inb Some h False] by simp
          next
            case op: True
            show ?thesis
            proof (cases "zip_close_archive w (Some a)")
              case (Inl f)
              then show ?thesis using "1.prems" True inb Some h op
                by (subst (asm) cleanup_loop.simps) simp
            next
              case (Inr w1)
              then have "cleanup_loop w1 (Suc it) e = Inr w'"
                using "1.prems" True inb Some h op by (subst (asm) cleanup_loop.simps) simp
              then have "temp_counter w' = temp_counter w1"
                using "1.IH"(2) [OF True inb Some h op Inr] by simp
              then show ?thesis using close_keeps_scratch [OF Inr] by simp
            qed
          qed
        qed
      qed
    qed
  qed
qed

lemma cleanup_counter:
  "zip_cleanup_temp_files w = Inr w' \<Longrightarrow> temp_counter w' = temp_counter w"
  by (auto simp: zip_cleanup_temp_files_def split: sum.splits dest: cleanup_loop_counter)

lemma rom_to_temp_counter:
  assumes "zip_extract_rom_to_temp w zip_path supplied tp = Inr (ok, p, w')"
  shows "temp_counter w \<le> temp_counter w'"
  using assms
  by (auto simp: zip_extract_rom_to_temp_def
      split: sum.splits if_splits prod.splits
      dest!: open_keeps_scratch close_keeps_scratch to_temp_internal_counter)

lemma to_temp_c_counter:
  "zip_extract_file_to_temp_c w archive fname out n = Inr (r, out', w') \<Longrightarrow>
     temp_counter w \<le> temp_counter w'"
  by (auto simp: zip_extract_file_to_temp_c_def
      split: sum.splits if_splits option.splits dest: to_temp_internal_counter)

lemma rom_to_temp_c_counter:
  "zip_extract_rom_to_temp_c w zip_path supplied out n = Inr (r, out', w') \<Longrightarrow>
     temp_counter w \<le> temp_counter w'"
  by (auto simp: zip_extract_rom_to_temp_c_def
      split: sum.splits if_splits option.splits dest: rom_to_temp_counter)

text \<open>
  C7. Every successful scratch extraction (by entry name, or of the located ROM) writes a
  file at \<open>TEMP_DIR @ temp_<counter>_<base name>\<close>, where the base name is the entry name
  after its last \<open>/\<close> and the counter is the value of \<open>temp_counter\<close> after the call, one
  more than before it. No operation of the interface lowers the counter. So a successful
  extraction and any later successful one, for the same or another entry name, have
  distinct destination paths.
\<close>

theorem scratch_paths_are_fresh:
  "(zip_extract_file_to_temp_internal w archive fname tp = Inr (True, p, w') \<longrightarrow>
      (\<exists>f. fname = Some f \<and> p = scratch_path (temp_counter w') (c_str f))
      \<and> temp_counter w' = temp_counter w + 1
      \<and> files w' p \<noteq> None)
   \<and> (zip_extract_rom_to_temp w zip_path supplied tp = Inr (True, p, w') \<longrightarrow>
      (\<exists>name. p = scratch_path (temp_counter w') (c_str name))
      \<and> temp_counter w' = temp_counter w + 1
      \<and> files w' p \<noteq> None)
   \<and> (zip_extract_file_to_temp_internal w1 archive1 fname1 tp1 = Inr (True, p1, w1')
        \<and> temp_counter w1' \<le> temp_counter w2
        \<and> zip_extract_file_to_temp_internal w2 archive2 fname2 tp2 = Inr (True, p2, w2')
      \<longrightarrow> p1 \<noteq> p2)
   \<and> (zip_open_archive w zip_path = Inr (opened, wa) \<longrightarrow> temp_counter w \<le> temp_counter wa)
   \<and> (zip_close_archive w archive = Inr wb \<longrightarrow> temp_counter w \<le> temp_counter wb)
   \<and> (zip_cleanup_temp_files w = Inr wc \<longrightarrow> temp_counter w \<le> temp_counter wc)
   \<and> (zip_extract_file_to_temp_c w archive fname out n = Inr (r, out', wd)
        \<longrightarrow> temp_counter w \<le> temp_counter wd)
   \<and> (zip_extract_rom_to_temp_c w zip_path supplied out n = Inr (r', out'', we)
        \<longrightarrow> temp_counter w \<le> temp_counter we)"
proof (intro conjI impI)
  assume "zip_open_archive w zip_path = Inr (opened, wa)"
  then show "temp_counter w \<le> temp_counter wa" using open_keeps_scratch by simp
next
  assume "zip_close_archive w archive = Inr wb"
  then show "temp_counter w \<le> temp_counter wb" using close_keeps_scratch by simp
next
  assume "zip_cleanup_temp_files w = Inr wc"
  then show "temp_counter w \<le> temp_counter wc" using cleanup_counter by simp
next
  assume "zip_extract_file_to_temp_c w archive fname out n = Inr (r, out', wd)"
  then show "temp_counter w \<le> temp_counter wd" by (rule to_temp_c_counter)
next
  assume "zip_extract_rom_to_temp_c w zip_path supplied out n = Inr (r', out'', we)"
  then show "temp_counter w \<le> temp_counter we" by (rule rom_to_temp_c_counter)
next
  assume a: "zip_extract_file_to_temp_internal w archive fname tp = Inr (True, p, w')"
  from to_temp_internal_success [OF a]
  show "\<exists>f. fname = Some f \<and> p = scratch_path (temp_counter w') (c_str f)"
    and "temp_counter w' = temp_counter w + 1" and "files w' p \<noteq> None"
    by auto
next
  assume a: "zip_extract_rom_to_temp w zip_path supplied tp = Inr (True, p, w')"
  from rom_to_temp_success_path [OF a]
  show "\<exists>name. p = scratch_path (temp_counter w') (c_str name)"
    and "temp_counter w' = temp_counter w + 1" and "files w' p \<noteq> None"
    by auto
next
  assume a: "zip_extract_file_to_temp_internal w1 archive1 fname1 tp1 = Inr (True, p1, w1')
        \<and> temp_counter w1' \<le> temp_counter w2
        \<and> zip_extract_file_to_temp_internal w2 archive2 fname2 tp2 = Inr (True, p2, w2')"
  then obtain f1 f2 where
    p: "p1 = scratch_path (temp_counter w1') (c_str f1)"
       "p2 = scratch_path (temp_counter w2 + 1) (c_str f2)"
    using to_temp_internal_success [of w1 archive1 fname1 tp1 p1 w1']
      to_temp_internal_success [of w2 archive2 fname2 tp2 p2 w2']
    by auto
  show "p1 \<noteq> p2"
  proof
    assume "p1 = p2"
    then have "temp_counter w1' = temp_counter w2 + 1"
      using p scratch_path_inj by metis
    then show False using a by simp
  qed
qed

text \<open>
  C10. When the extraction to the scratch directory has succeeded and
  \<open>zip_extract_file_to_temp_c\<close> answers 0 only because the composed path does not fit in
  \<open>buffer_size\<close>, the state it leaves is the one the extraction produced: the counter is
  one more than before, and the scratch file at the composed path holds the entry's bytes,
  as many as its declared size.
\<close>

theorem buffer_too_small_still_writes:
  "zip_extract_file_to_temp_internal w archive fname [] = Inr (True, p, w')
     \<and> \<not> length p < n \<longrightarrow>
   zip_extract_file_to_temp_c w archive fname out n = Inr (0, out, w')
   \<and> temp_counter w' = temp_counter w + 1
   \<and> temp_counter w' \<noteq> temp_counter w
   \<and> (\<exists>a h uf f cur stored fi bs.
         archive = Some a \<and> heap w a = Some h \<and> handle h = Some uf
         \<and> fname = Some f \<and> unzLocateFile uf f = Some cur
         \<and> unzGetCurrentFileInfo uf cur = Some (stored, fi)
         \<and> payload (uf ! cur) = Some bs
         \<and> p = scratch_path (temp_counter w + 1) (c_str f)
         \<and> files w' p = Some (take (nat (declared_size fi)) bs)
         \<and> int (length (take (nat (declared_size fi)) bs)) = declared_size fi)"
proof (intro impI)
  assume a: "zip_extract_file_to_temp_internal w archive fname [] = Inr (True, p, w')
     \<and> \<not> length p < n"
  then have c: "zip_extract_file_to_temp_c w archive fname out n = Inr (0, out, w')"
    by (simp add: zip_extract_file_to_temp_c_def)
  from a to_temp_internal_success [of w archive fname "[]" p w']
  obtain a' h uf f cur stored fi bs where
    x: "archive = Some a'" "heap w a' = Some h" "handle h = Some uf"
       "fname = Some f" "unzLocateFile uf f = Some cur"
       "unzGetCurrentFileInfo uf cur = Some (stored, fi)"
       "payload (uf ! cur) = Some bs"
       "0 \<le> declared_size fi" "nat (declared_size fi) \<le> length bs"
       "temp_counter w' = temp_counter w + 1"
       "p = scratch_path (temp_counter w + 1) (c_str f)"
       "files w' = (files w)(p := Some (take (nat (declared_size fi)) bs))"
    by auto
  from x(8,9) have l: "int (length (take (nat (declared_size fi)) bs)) = declared_size fi"
    by simp
  from x(12) have "files w' p = Some (take (nat (declared_size fi)) bs)" by simp
  then have "\<exists>a h uf f cur stored fi bs.
         archive = Some a \<and> heap w a = Some h \<and> handle h = Some uf
         \<and> fname = Some f \<and> unzLocateFile uf f = Some cur
         \<and> unzGetCurrentFileInfo uf cur = Some (stored, fi)
         \<and> payload (uf ! cur) = Some bs
         \<and> p = scratch_path (temp_counter w + 1) (c_str f)
         \<and> files w' p = Some (take (nat (declared_size fi)) bs)
         \<and> int (length (take (nat (declared_size fi)) bs)) = declared_size fi"
    using x l by blast
  then show "zip_extract_file_to_temp_c w archive fname out n = Inr (0, out, w')
   \<and> temp_counter w' = temp_counter w + 1
   \<and> temp_counter w' \<noteq> temp_counter w
   \<and> (\<exists>a h uf f cur stored fi bs.
         archive = Some a \<and> heap w a = Some h \<and> handle h = Some uf
         \<and> fname = Some f \<and> unzLocateFile uf f = Some cur
         \<and> unzGetCurrentFileInfo uf cur = Some (stored, fi)
         \<and> payload (uf ! cur) = Some bs
         \<and> p = scratch_path (temp_counter w + 1) (c_str f)
         \<and> files w' p = Some (take (nat (declared_size fi)) bs)
         \<and> int (length (take (nat (declared_size fi)) bs)) = declared_size fi)"
    using c x(10) by simp
qed

lemma fixture_find_crt:
  "zip_find_rom_in_archive opened_world (Some 0) (Some [''.crt'']) [] = Inr (True, ''data/game.crt'')"
proof -
  have "find_rom_loop fixture_catalog (Some [''.crt'']) = Some ''data/game.crt''"
    by code_simp
  then show ?thesis
    by (simp add: zip_find_rom_in_archive_def opened_world_def opened_handle_def
        fixture_handle_def)
qed

lemma fixture_open_from_extracted:
  "heap extracted_world 0 = Some opened_handle"
  "g_open_archives extracted_world = \<lparr>storage = [Some 0], vsize = Suc 0\<rparr>"
  by (simp_all add: extracted_world_def opened_world_def)

lemma fixture_close:
  "zip_close_archive extracted_world (Some 0) = Inr closed_world"
  by (simp add: zip_close_archive_def fixture_open_from_extracted opened_handle_def
      fixture_handle_def std_find_def elements_def erase_def closed_world_def)

lemma fixture_rom:
  "zip_extract_rom_to_temp fixture_world (Some ''a.zip'') (Some [''.crt'']) tp
     = Inr (True, ''ux0:temp/vicevita_zip/temp_1_game.crt'', closed_world)"
proof -
  have c: "c_str ''data/game.crt'' = ''data/game.crt''"
    by (simp add: c_str_Cons NUL_def)
  show ?thesis
    by (simp add: zip_extract_rom_to_temp_def fixture_open fixture_find_crt c fixture_extract
        fixture_close)
qed

theorem scratch_path_must_fit_buffer_witness:
  "zip_extract_file_to_temp_internal opened_world (Some 0) (Some ''data/game.crt'') []
     = Inr (True, ''ux0:temp/vicevita_zip/temp_1_game.crt'', extracted_world)
   \<and> length ''ux0:temp/vicevita_zip/temp_1_game.crt'' = 37
   \<and> zip_extract_file_to_temp_c opened_world (Some 0) (Some ''data/game.crt'') (Some ''old'') 37
       = Inr (0, Some ''old'', extracted_world)
   \<and> zip_extract_file_to_temp_c opened_world (Some 0) (Some ''data/game.crt'') (Some ''old'') 38
       = Inr (1, Some ''ux0:temp/vicevita_zip/temp_1_game.crt'', extracted_world)
   \<and> zip_extract_rom_to_temp fixture_world (Some ''a.zip'') (Some [''.crt'']) []
       = Inr (True, ''ux0:temp/vicevita_zip/temp_1_game.crt'', closed_world)
   \<and> zip_extract_rom_to_temp_c fixture_world (Some ''a.zip'') (Some [''.crt'']) (Some ''old'') 37
       = Inr (0, Some ''old'', closed_world)
   \<and> zip_extract_rom_to_temp_c fixture_world (Some ''a.zip'') (Some [''.crt'']) (Some ''old'') 38
       = Inr (1, Some ''ux0:temp/vicevita_zip/temp_1_game.crt'', closed_world)"
proof -
  let ?p = "''ux0:temp/vicevita_zip/temp_1_game.crt''"
  have l: "length ?p = 37" by simp
  have cp: "c_str ?p = ?p" by (simp add: c_str_Cons NUL_def)
  have f0: "zip_extract_file_to_temp_c opened_world (Some 0) (Some ''data/game.crt'')
              (Some ''old'') 37 = Inr (0, Some ''old'', extracted_world)"
    using scratch_path_must_fit_buffer [where w = opened_world and archive = "Some 0"
        and fname = "Some ''data/game.crt''" and ok = True and p = ?p and w' = extracted_world
        and out = "Some ''old''" and n = 37]
      fixture_extract [of "[]"]
    by simp
  have r0: "zip_extract_rom_to_temp_c fixture_world (Some ''a.zip'') (Some [''.crt''])
              (Some ''old'') 37 = Inr (0, Some ''old'', closed_world)"
    using scratch_path_must_fit_buffer [where w = fixture_world and zip_path = "Some ''a.zip''"
        and supplied = "Some [''.crt'']" and ok = True and p = ?p and w' = closed_world
        and out = "Some ''old''" and n = 37]
      fixture_rom [of "[]"]
    by simp
  have f1: "zip_extract_file_to_temp_c opened_world (Some 0) (Some ''data/game.crt'')
              (Some ''old'') 38 = Inr (1, Some ?p, extracted_world)"
    by (simp add: zip_extract_file_to_temp_c_def fixture_extract cp)
  have r1: "zip_extract_rom_to_temp_c fixture_world (Some ''a.zip'') (Some [''.crt''])
              (Some ''old'') 38 = Inr (1, Some ?p, closed_world)"
    by (simp add: zip_extract_rom_to_temp_c_def fixture_rom cp)
  show ?thesis using l f0 r0 f1 r1 fixture_extract [of "[]"] fixture_rom [of "[]"] by simp
qed

lemma fixture_cleanup_none: "zip_cleanup_temp_files fixture_world = Inr fixture_world"
  by (simp add: zip_cleanup_temp_files_def cleanup_loop.simps clear_def fixture_world_def)

theorem scratch_paths_are_fresh_witness:
  "zip_extract_file_to_temp_internal opened_world (Some 0) (Some ''data/game.crt'') []
     = Inr (True, ''ux0:temp/vicevita_zip/temp_1_game.crt'', extracted_world)
   \<and> temp_counter opened_world = 0 \<and> temp_counter extracted_world = 1
   \<and> scratch_path 1 (c_str ''data/game.crt'') = ''ux0:temp/vicevita_zip/temp_1_game.crt''
   \<and> zip_extract_file_to_temp_internal extracted_world (Some 0) (Some ''data/game.crt'') []
     = Inr (True, ''ux0:temp/vicevita_zip/temp_2_game.crt'', extracted_twice_world)
   \<and> ''ux0:temp/vicevita_zip/temp_1_game.crt'' \<noteq> ''ux0:temp/vicevita_zip/temp_2_game.crt''
   \<and> files extracted_twice_world ''ux0:temp/vicevita_zip/temp_1_game.crt'' = Some [1, 2, 3]
   \<and> files extracted_twice_world ''ux0:temp/vicevita_zip/temp_2_game.crt'' = Some [1, 2, 3]
   \<and> zip_extract_rom_to_temp fixture_world (Some ''a.zip'') (Some [''.crt'']) []
       = Inr (True, ''ux0:temp/vicevita_zip/temp_1_game.crt'', closed_world)
   \<and> temp_counter fixture_world = 0 \<and> temp_counter closed_world = 1
   \<and> zip_open_archive fixture_world (Some ''a.zip'') = Inr (Some 0, opened_world)
   \<and> zip_close_archive extracted_world (Some 0) = Inr closed_world
   \<and> zip_cleanup_temp_files fixture_world = Inr fixture_world
   \<and> zip_extract_file_to_temp_c opened_world (Some 0) (Some ''data/game.crt'') (Some []) 16
       = Inr (0, Some [], extracted_world)"
proof -
  let ?p1 = "''ux0:temp/vicevita_zip/temp_1_game.crt''"
  let ?p2 = "''ux0:temp/vicevita_zip/temp_2_game.crt''"
  note t = scratch_paths_are_fresh [where ?w1.0 = opened_world and ?archive1.0 = "Some 0"
        and ?fname1.0 = "Some ''data/game.crt''" and ?tp1.0 = "[]"
        and ?p1.0 = ?p1 and ?w1' = extracted_world
        and ?w2.0 = extracted_world and ?archive2.0 = "Some 0"
        and ?fname2.0 = "Some ''data/game.crt''" and ?tp2.0 = "[]"
        and ?p2.0 = ?p2 and ?w2' = extracted_twice_world
        and w = fixture_world and zip_path = "Some ''a.zip''" and supplied = "Some [''.crt'']"
        and tp = "[]" and p = ?p1 and w' = closed_world and opened = "Some 0"
        and wa = opened_world and wc = fixture_world]
  have s: "scratch_path 1 (c_str ''data/game.crt'') = ?p1"
    by (simp add: scratch_path_def base_name_def TEMP_DIR_def to_string_1 c_str_Cons NUL_def)
  have d: "?p1 \<noteq> ?p2"
    using t fixture_extract [of "[]"] fixture_extract_again [of "[]"]
    by (simp del: list.inject)
  have c: "temp_counter fixture_world = 0" "temp_counter closed_world = 1"
    using t fixture_rom [of "[]"] fixture_open fixture_cleanup_none
    by (simp_all add: fixture_world_def)
  have f: "files extracted_twice_world ?p1 = Some [1, 2, 3]"
    "files extracted_twice_world ?p2 = Some [1, 2, 3]"
    by (simp_all add: extracted_twice_world_def extracted_world_fields)
  have e: "zip_extract_file_to_temp_c opened_world (Some 0) (Some ''data/game.crt'') (Some []) 16
       = Inr (0, Some [], extracted_world)"
    by (simp add: zip_extract_file_to_temp_c_def fixture_extract)
  show ?thesis
    using s d c f e fixture_extract [of "[]"] fixture_extract_again [of "[]"]
      fixture_rom [of "[]"] fixture_open fixture_close fixture_cleanup_none
    by (simp add: opened_world_fields extracted_world_fields)
qed

theorem buffer_too_small_still_writes_witness:
  "zip_extract_file_to_temp_internal opened_world (Some 0) (Some ''data/game.crt'') []
     = Inr (True, ''ux0:temp/vicevita_zip/temp_1_game.crt'', extracted_world)
   \<and> \<not> length ''ux0:temp/vicevita_zip/temp_1_game.crt'' < 16
   \<and> zip_extract_file_to_temp_c opened_world (Some 0) (Some ''data/game.crt'') (Some ''old'') 16
       = Inr (0, Some ''old'', extracted_world)
   \<and> temp_counter opened_world = 0 \<and> temp_counter extracted_world = 1
   \<and> files opened_world ''ux0:temp/vicevita_zip/temp_1_game.crt'' = None
   \<and> files extracted_world ''ux0:temp/vicevita_zip/temp_1_game.crt'' = Some [1, 2, 3]"
proof -
  have "zip_extract_file_to_temp_c opened_world (Some 0) (Some ''data/game.crt'') (Some ''old'') 16
       = Inr (0, Some ''old'', extracted_world)"
    using buffer_too_small_still_writes [where w = opened_world and archive = "Some 0"
        and fname = "Some ''data/game.crt''" and p = "''ux0:temp/vicevita_zip/temp_1_game.crt''"
        and w' = extracted_world and n = 16 and out = "Some ''old''"]
      fixture_extract [of "[]"]
    by simp
  then show ?thesis using fixture_extract [of "[]"]
    by (simp add: opened_world_fields extracted_world_fields)
qed

section \<open>Bulk cleanup: facts\<close>

lemma fixture_listing_any_path:
  "zip_list_contents_internal
     (Some \<lparr>handle = Some fixture_dir, archive_path = p, is_open = True, entries = []\<rparr>) []
   = Inr (True, fixture_catalog)"
  using zip_list_contents_internal_char
    [of "\<lparr>handle = Some fixture_dir, archive_path = p, is_open = True, entries = []\<rparr>"
        fixture_dir "[]"]
    zip_list_contents_internal_char [of fixture_handle fixture_dir "[]"] fixture_listing
  by (simp add: fixture_handle_def fixture_dir_def)

lemma fixture_is_archive:
  "zip_is_archive (Some ''b.ZIP'') = 1" "zip_is_archive (Some ''c.zip'') = 1"
  by code_simp+

lemma fixture_open_second:
  "zip_open_archive opened_world (Some ''b.ZIP'') = Inr (Some 1, two_open_world)"
  apply (simp add: zip_open_archive_def fixture_is_archive unzOpen_def Let_def
      c_str_Cons NUL_def)
  apply (simp add: fixture_listing_any_path opened_world_def fixture_world_def)
  apply (simp add: two_open_world_def opened_world_def fixture_world_def push_back_def
      opened_handle_def fixture_handle_def c_str_Cons NUL_def)
  done

lemma fixture_open_third:
  "zip_open_archive two_open_world (Some ''c.zip'') = Inr (Some 2, three_open_world)"
  apply (simp add: zip_open_archive_def fixture_is_archive unzOpen_def Let_def
      c_str_Cons NUL_def)
  apply (simp add: fixture_listing_any_path two_open_world_def opened_world_def
      fixture_world_def)
  apply (simp add: three_open_world_def two_open_world_def opened_world_def fixture_world_def
      push_back_def opened_handle_def fixture_handle_def c_str_Cons NUL_def)
  done

lemma cleanup_three:
  "map_sum id registry_view (zip_cleanup_temp_files three_open_world) = Inl Use_after_free"
  by code_simp

lemma cleanup_three_two_steps:
  "map_sum id registry_view (cleanup_loop three_open_world 0 2)
     = Inr ([None, Some True, None], [Some 1], [Some 1, Some 2, Some 2])"
  by code_simp

lemma cleanup_two:
  "map_sum id registry_view (zip_cleanup_temp_files two_open_world)
     = Inr ([None, None, None], [], [Some 1, Some 1])"
  by code_simp

lemma cleanup_none:
  "map_sum id registry_view (zip_cleanup_temp_files fixture_world)
     = Inr ([None, None, None], [], [])"
  by code_simp

text \<open>
  C2, at three open handles. \<open>a.zip\<close>, \<open>b.ZIP\<close> and \<open>c.zip\<close> are opened, so the registry
  holds the handles 0, 1 and 2, all open. The loop of \<open>zip_cleanup_temp_files\<close> closes
  handle 0, which erases it from the vector it is iterating over; the next position then
  holds handle 2, so handle 1 is passed over: after two iterations handle 1 is still open
  and is the only live element. The third position holds the stale pointer to handle 2,
  already deleted, and reading \<open>archive->is_open\<close> through it is a use after free. With
  no handle open the call returns and leaves the registry empty.
\<close>

theorem cleanup_three_handles_skips_second:
  "zip_open_archive fixture_world (Some ''a.zip'') = Inr (Some 0, opened_world)
   \<and> zip_open_archive opened_world (Some ''b.ZIP'') = Inr (Some 1, two_open_world)
   \<and> zip_open_archive two_open_world (Some ''c.zip'') = Inr (Some 2, three_open_world)
   \<and> registry_view three_open_world
       = ([Some True, Some True, Some True], [Some 0, Some 1, Some 2],
          [Some 0, Some 1, Some 2])
   \<and> map_sum id registry_view (cleanup_loop three_open_world 0 2)
       = Inr ([None, Some True, None], [Some 1], [Some 1, Some 2, Some 2])
   \<and> map_sum id registry_view (zip_cleanup_temp_files three_open_world)
       = Inl Use_after_free
   \<and> map_sum id registry_view (zip_cleanup_temp_files fixture_world)
       = Inr ([None, None, None], [], [])"
proof -
  have v: "registry_view three_open_world
       = ([Some True, Some True, Some True], [Some 0, Some 1, Some 2],
          [Some 0, Some 1, Some 2])"
    by code_simp
  show ?thesis
    using fixture_open fixture_open_second fixture_open_third v cleanup_three_two_steps
      cleanup_three cleanup_none
    by simp
qed

end
